theory Spec2Isabelle
  imports Complex_Main
begin

section \<open>The scalar type: IEEE-754 binary64 (\<open>double\<close>)\<close>

text \<open>
  Every coordinate of a \<open>Point\<close> and every entry of a \<open>Matrix4d\<close> is a C++ \<open>double\<close>.
  A double is NaN, a signed infinity, or a finite value \<open>(-1)^s * m * 2^e\<close> given by its
  sign \<open>s\<close>, its integer significand \<open>m < 2^53\<close> and its exponent \<open>e\<close> with
  \<open>-1074 \<le> e \<le> 971\<close>; a significand below \<open>2^52\<close> (zero or subnormal) has \<open>e = -1074\<close>.
  Arithmetic rounds the exact result to the nearest double, ties to even, one operation at a
  time: an expression \<open>a*b + c\<close> is a rounded product followed by a rounded sum.
\<close>

datatype double = Finite bool nat int | Infinity bool | NaN

definition emin :: int where
  "emin = - 1074"

definition emax :: int where
  "emax = 971"

definition is_finite :: "double \<Rightarrow> bool" where
  "is_finite x =
     (case x of
        Finite s m e \<Rightarrow> m < 2 ^ 53 \<and> emin \<le> e \<and> e \<le> emax \<and> (m < 2 ^ 52 \<longrightarrow> e = emin)
      | _ \<Rightarrow> False)"

definition is_nan :: "double \<Rightarrow> bool" where
  "is_nan x = (case x of NaN \<Rightarrow> True | _ \<Rightarrow> False)"

definition is_infinite :: "double \<Rightarrow> bool" where
  "is_infinite x = (case x of Infinity s \<Rightarrow> True | _ \<Rightarrow> False)"

definition is_zero :: "double \<Rightarrow> bool" where
  "is_zero x = (case x of Finite s m e \<Rightarrow> m = 0 | _ \<Rightarrow> False)"

fun bitlen :: "nat \<Rightarrow> nat" where
  "bitlen n = (if n = 0 then 0 else Suc (bitlen (n div 2)))"

declare bitlen.simps [simp del]

text \<open>
  \<open>round_double s m e sticky\<close> rounds the exact magnitude \<open>m * 2^e\<close> (slightly more when
  \<open>sticky\<close>: the discarded tail of a quotient or of a square root) to the nearest double of
  sign \<open>s\<close>, ties to even, with gradual underflow, and overflow to infinity.
\<close>

definition round_double :: "bool \<Rightarrow> nat \<Rightarrow> int \<Rightarrow> bool \<Rightarrow> double" where
  "round_double s m e sticky =
     (if m = 0 then Finite s 0 emin
      else
        let e' = max emin (e + int (bitlen m) - 53) in
        if e' \<le> e then
          (if e' > emax then Infinity s else Finite s (m * 2 ^ nat (e - e')) e')
        else
          let sh = nat (e' - e);
              q = m div 2 ^ sh;
              r = m mod 2 ^ sh;
              half = 2 ^ (sh - 1);
              up = (r > half \<or> (r = half \<and> (sticky \<or> q mod 2 = 1)));
              q' = (if up then q + 1 else q);
              e'' = (if q' = 2 ^ 53 then e' + 1 else e');
              q'' = (if q' = 2 ^ 53 then 2 ^ 52 else q')
          in if e'' > emax then Infinity s else Finite s q'' e'')"

definition signed :: "bool \<Rightarrow> nat \<Rightarrow> int" where
  "signed s m = (if s then - int m else int m)"

fun fneg :: "double \<Rightarrow> double" where
  "fneg NaN = NaN"
| "fneg (Infinity s) = Infinity (\<not> s)"
| "fneg (Finite s m e) = Finite (\<not> s) m e"

fun fabs :: "double \<Rightarrow> double" where
  "fabs NaN = NaN"
| "fabs (Infinity s) = Infinity False"
| "fabs (Finite s m e) = Finite False m e"

fun fadd :: "double \<Rightarrow> double \<Rightarrow> double" where
  "fadd NaN y = NaN"
| "fadd x NaN = NaN"
| "fadd (Infinity s) (Infinity t) = (if s = t then Infinity s else NaN)"
| "fadd (Infinity s) (Finite t n f) = Infinity s"
| "fadd (Finite s m e) (Infinity t) = Infinity t"
| "fadd (Finite s m e) (Finite t n f) =
     (let g = min e f;
          a = signed s m * 2 ^ nat (e - g) + signed t n * 2 ^ nat (f - g)
      in if a = 0 then Finite (s \<and> t) 0 emin
         else round_double (a < 0) (nat \<bar>a\<bar>) g False)"

definition fsub :: "double \<Rightarrow> double \<Rightarrow> double" where
  "fsub x y = fadd x (fneg y)"

fun fmul :: "double \<Rightarrow> double \<Rightarrow> double" where
  "fmul NaN y = NaN"
| "fmul x NaN = NaN"
| "fmul (Infinity s) (Infinity t) = Infinity (s \<noteq> t)"
| "fmul (Infinity s) (Finite t n f) = (if n = 0 then NaN else Infinity (s \<noteq> t))"
| "fmul (Finite s m e) (Infinity t) = (if m = 0 then NaN else Infinity (s \<noteq> t))"
| "fmul (Finite s m e) (Finite t n f) = round_double (s \<noteq> t) (m * n) (e + f) False"

fun fdiv :: "double \<Rightarrow> double \<Rightarrow> double" where
  "fdiv NaN y = NaN"
| "fdiv x NaN = NaN"
| "fdiv (Infinity s) (Infinity t) = NaN"
| "fdiv (Infinity s) (Finite t n f) = Infinity (s \<noteq> t)"
| "fdiv (Finite s m e) (Infinity t) = Finite (s \<noteq> t) 0 emin"
| "fdiv (Finite s m e) (Finite t n f) =
     (if n = 0 then (if m = 0 then NaN else Infinity (s \<noteq> t))
      else if m = 0 then Finite (s \<noteq> t) 0 emin
      else round_double (s \<noteq> t) ((m * 2 ^ 110) div n) (e - f - 110)
             ((m * 2 ^ 110) mod n \<noteq> 0))"

fun isqrt :: "nat \<Rightarrow> nat" where
  "isqrt n =
     (if n < 2 then n
      else let r = 2 * isqrt (n div 4)
           in if (r + 1) * (r + 1) \<le> n then r + 1 else r)"

declare isqrt.simps [simp del]

fun fsqrt :: "double \<Rightarrow> double" where
  "fsqrt NaN = NaN"
| "fsqrt (Infinity s) = (if s then NaN else Infinity False)"
| "fsqrt (Finite s m e) =
     (if m = 0 then Finite s 0 emin
      else if s then NaN
      else let k = (if even e then 110 else 111);
               n = m * 2 ^ k;
               r = isqrt n
           in round_double False r ((e - int k) div 2) (r * r \<noteq> n))"

text \<open>The comparisons of C++ on doubles: every comparison with NaN is false, and the two
  zeros are equal.\<close>

fun flt :: "double \<Rightarrow> double \<Rightarrow> bool" where
  "flt NaN y = False"
| "flt x NaN = False"
| "flt (Infinity s) (Infinity t) = (s \<and> \<not> t)"
| "flt (Infinity s) (Finite t n f) = s"
| "flt (Finite s m e) (Infinity t) = (\<not> t)"
| "flt (Finite s m e) (Finite t n f) =
     (let g = min e f in signed s m * 2 ^ nat (e - g) < signed t n * 2 ^ nat (f - g))"

fun feq :: "double \<Rightarrow> double \<Rightarrow> bool" where
  "feq NaN y = False"
| "feq x NaN = False"
| "feq (Infinity s) (Infinity t) = (s = t)"
| "feq (Infinity s) (Finite t n f) = False"
| "feq (Finite s m e) (Infinity t) = False"
| "feq (Finite s m e) (Finite t n f) =
     (let g = min e f in signed s m * 2 ^ nat (e - g) = signed t n * 2 ^ nat (f - g))"

definition fle :: "double \<Rightarrow> double \<Rightarrow> bool" where
  "fle x y = (flt x y \<or> feq x y)"

definition double_of_nat :: "nat \<Rightarrow> double" where
  "double_of_nat n = round_double False n 0 False"

instantiation double :: "{zero, one, plus, minus, uminus, times, inverse, abs, ord}"
begin

definition zero_double :: double where
  "zero_double = Finite False 0 emin"

definition one_double :: double where
  "one_double = Finite False (2 ^ 52) (- 52)"

definition plus_double :: "double \<Rightarrow> double \<Rightarrow> double" where
  "plus_double = fadd"

definition minus_double :: "double \<Rightarrow> double \<Rightarrow> double" where
  "minus_double = fsub"

definition uminus_double :: "double \<Rightarrow> double" where
  "uminus_double = fneg"

definition times_double :: "double \<Rightarrow> double \<Rightarrow> double" where
  "times_double = fmul"

definition divide_double :: "double \<Rightarrow> double \<Rightarrow> double" where
  "divide_double = fdiv"

definition inverse_double :: "double \<Rightarrow> double" where
  "inverse_double x = fdiv (Finite False (2 ^ 52) (- 52)) x"

definition abs_double :: "double \<Rightarrow> double" where
  "abs_double = fabs"

definition less_double :: "double \<Rightarrow> double \<Rightarrow> bool" where
  "less_double = flt"

definition less_eq_double :: "double \<Rightarrow> double \<Rightarrow> bool" where
  "less_eq_double = fle"

instance ..

end

definition std_max :: "double \<Rightarrow> double \<Rightarrow> double" where
  \<comment> \<open>\<open>std::max(a, b)\<close> is \<open>(a < b) ? b : a\<close>\<close>
  "std_max a b = (if a < b then b else a)"

section \<open>Fixed-size arrays\<close>

text \<open>
  \<open>std::array<double,3>\<close> and \<open>std::array<std::array<double,4>,4>\<close>. A literal subscript
  \<open>a[0]\<close> is the selector \<open>elem0 a\<close>; a subscript computed at run time goes through
  \<open>subscript3\<close>, where \<open>None\<close> stands for the undefined behaviour of
  \<open>std::array::operator[]\<close> outside the array (the \<open>int\<close> is converted to \<open>size_t\<close>, so
  a negative subscript is out of range, too).
\<close>

datatype 'a array3 = Array3 (elem0: 'a) (elem1: 'a) (elem2: 'a)

datatype 'a array4 = Array4 (at0: 'a) (at1: 'a) (at2: 'a) (at3: 'a)

type_synonym Matrix4d = "double array4 array4"

datatype index3 = I0 | I1 | I2

fun get3 :: "'a array3 \<Rightarrow> index3 \<Rightarrow> 'a" where
  "get3 a I0 = elem0 a"
| "get3 a I1 = elem1 a"
| "get3 a I2 = elem2 a"

fun set3 :: "'a array3 \<Rightarrow> index3 \<Rightarrow> 'a \<Rightarrow> 'a array3" where
  "set3 (Array3 a b c) I0 v = Array3 v b c"
| "set3 (Array3 a b c) I1 v = Array3 a v c"
| "set3 (Array3 a b c) I2 v = Array3 a b v"

definition index3_of_int :: "int \<Rightarrow> index3 option" where
  "index3_of_int i =
     (if i = 0 then Some I0 else if i = 1 then Some I1 else if i = 2 then Some I2 else None)"

definition subscript3 :: "'a array3 \<Rightarrow> int \<Rightarrow> 'a option" where
  "subscript3 a i = map_option (get3 a) (index3_of_int i)"

section \<open>\<open>struct Point\<close>: constructors and const methods\<close>

record Point =
  xyz :: "double array3"

definition Point_default :: Point where
  \<comment> \<open>\<open>Point() : xyz({0., 0., 0.})\<close>\<close>
  "Point_default = \<lparr>xyz = Array3 0 0 0\<rparr>"

definition Point_coords :: "double \<Rightarrow> double \<Rightarrow> double \<Rightarrow> Point" where
  \<comment> \<open>\<open>Point(const double& x, const double& y, const double& z) : xyz({x, y, z})\<close>\<close>
  "Point_coords x y z = \<lparr>xyz = Array3 x y z\<rparr>"

definition Point_array :: "double array3 \<Rightarrow> Point" where
  \<comment> \<open>\<open>Point(const std::array<double,3>& arr) : xyz(arr)\<close>\<close>
  "Point_array arr = \<lparr>xyz = arr\<rparr>"

definition Point_vector :: "Point \<Rightarrow> Point \<Rightarrow> Point" where
  \<comment> \<open>\<open>Point(const Point& a, const Point& b)\<close>\<close>
  "Point_vector a b =
     \<lparr>xyz = Array3 (elem0 (xyz b) - elem0 (xyz a))
                   (elem1 (xyz b) - elem1 (xyz a))
                   (elem2 (xyz b) - elem2 (xyz a))\<rparr>"

definition operator_plus :: "Point \<Rightarrow> Point \<Rightarrow> Point" where
  \<comment> \<open>\<open>Point operator+(const Point& p) const\<close>\<close>
  "operator_plus this p =
     Point_coords (elem0 (xyz this) + elem0 (xyz p))
                  (elem1 (xyz this) + elem1 (xyz p))
                  (elem2 (xyz this) + elem2 (xyz p))"

definition operator_minus :: "Point \<Rightarrow> Point \<Rightarrow> Point" where
  \<comment> \<open>\<open>Point operator-(const Point& p) const\<close>\<close>
  "operator_minus this p =
     Point_coords (elem0 (xyz this) - elem0 (xyz p))
                  (elem1 (xyz this) - elem1 (xyz p))
                  (elem2 (xyz this) - elem2 (xyz p))"

definition operator_times :: "Point \<Rightarrow> double \<Rightarrow> Point" where
  \<comment> \<open>\<open>Point operator*(const double& d) const\<close>\<close>
  "operator_times this d =
     Point_coords (elem0 (xyz this) * d) (elem1 (xyz this) * d) (elem2 (xyz this) * d)"

definition operator_divide :: "Point \<Rightarrow> double \<Rightarrow> Point" where
  \<comment> \<open>\<open>Point operator/(const double& d) const\<close>\<close>
  "operator_divide this d =
     Point_coords (elem0 (xyz this) / d) (elem1 (xyz this) / d) (elem2 (xyz this) / d)"

definition x_const :: "Point \<Rightarrow> double" where
  \<comment> \<open>\<open>double x() const\<close>\<close>
  "x_const this = elem0 (xyz this)"

definition y_const :: "Point \<Rightarrow> double" where
  \<comment> \<open>\<open>double y() const\<close>\<close>
  "y_const this = elem1 (xyz this)"

definition z_const :: "Point \<Rightarrow> double" where
  \<comment> \<open>\<open>double z() const\<close>\<close>
  "z_const this = elem2 (xyz this)"

definition operator_index_const :: "Point \<Rightarrow> int \<Rightarrow> double option" where
  \<comment> \<open>\<open>double operator[](const int i) const\<close>: \<open>return xyz[i]\<close>\<close>
  "operator_index_const this i = subscript3 (xyz this) i"

definition dot :: "Point \<Rightarrow> Point \<Rightarrow> double" where
  "dot this p =
     elem0 (xyz this) * elem0 (xyz p) + elem1 (xyz this) * elem1 (xyz p)
       + elem2 (xyz this) * elem2 (xyz p)"

definition cross :: "Point \<Rightarrow> Point \<Rightarrow> Point" where
  "cross this p =
     Point_coords
       (elem1 (xyz this) * elem2 (xyz p) - elem1 (xyz p) * elem2 (xyz this))
       (elem2 (xyz this) * elem0 (xyz p) - elem2 (xyz p) * elem0 (xyz this))
       (elem0 (xyz this) * elem1 (xyz p) - elem0 (xyz p) * elem1 (xyz this))"

definition norm1 :: "Point \<Rightarrow> double" where
  "norm1 this = \<bar>elem0 (xyz this)\<bar> + \<bar>elem1 (xyz this)\<bar> + \<bar>elem2 (xyz this)\<bar>"

definition norm2 :: "Point \<Rightarrow> double" where
  "norm2 this =
     fsqrt (elem0 (xyz this) * elem0 (xyz this) + elem1 (xyz this) * elem1 (xyz this)
              + elem2 (xyz this) * elem2 (xyz this))"

definition normInf :: "Point \<Rightarrow> double" where
  "normInf this =
     std_max \<bar>elem0 (xyz this)\<bar> (std_max \<bar>elem1 (xyz this)\<bar> \<bar>elem2 (xyz this)\<bar>)"

text \<open>The comparison that the specification writes \<open>p == q\<close>: C++ \<open>==\<close> on each
  coordinate. (\<open>Point\<close> itself declares no \<open>operator==\<close>.)\<close>

definition Point_eq :: "Point \<Rightarrow> Point \<Rightarrow> bool" where
  "Point_eq p q \<longleftrightarrow>
     feq (elem0 (xyz p)) (elem0 (xyz q)) \<and> feq (elem1 (xyz p)) (elem1 (xyz q))
       \<and> feq (elem2 (xyz p)) (elem2 (xyz q))"

section \<open>Objects, references and the methods that mutate\<close>

text \<open>
  The in-place operators and \<open>transform\<close> write to the receiver and take their argument by
  reference, so they are modelled on a memory of objects. A \<open>Point&\<close> or \<open>Matrix4d&\<close> is the
  address of an object of that type. A \<open>double&\<close> refers either to a double outside every
  \<open>Point\<close> (\<open>Scalar_ref\<close>: a variable, a temporary, a matrix entry) or to one coordinate of a
  \<open>Point\<close> object (\<open>Coord_ref\<close>: what the non-const \<open>x()\<close>, \<open>y()\<close>, \<open>z()\<close> and
  \<open>operator[]\<close> return).
\<close>

type_synonym addr = nat

datatype double_ref = Scalar_ref addr | Coord_ref addr index3

record memory =
  points :: "addr \<Rightarrow> Point"
  scalars :: "addr \<Rightarrow> double"
  matrices :: "addr \<Rightarrow> Matrix4d"

fun read_ref :: "memory \<Rightarrow> double_ref \<Rightarrow> double" where
  "read_ref mem (Scalar_ref a) = scalars mem a"
| "read_ref mem (Coord_ref a i) = get3 (xyz (points mem a)) i"

fun write_ref :: "memory \<Rightarrow> double_ref \<Rightarrow> double \<Rightarrow> memory" where
  "write_ref mem (Scalar_ref a) v = mem\<lparr>scalars := (scalars mem)(a := v)\<rparr>"
| "write_ref mem (Coord_ref a i) v =
     mem\<lparr>points := (points mem)(a := \<lparr>xyz = set3 (xyz (points mem a)) i v\<rparr>)\<rparr>"

text \<open>The built-in compound assignments \<open>l += r\<close>, \<open>l -= r\<close>, \<open>l *= r\<close>, \<open>l /= r\<close> on
  doubles: both sides are read when the assignment runs.\<close>

definition add_assign :: "memory \<Rightarrow> double_ref \<Rightarrow> double_ref \<Rightarrow> memory" where
  "add_assign mem l r = write_ref mem l (read_ref mem l + read_ref mem r)"

definition sub_assign :: "memory \<Rightarrow> double_ref \<Rightarrow> double_ref \<Rightarrow> memory" where
  "sub_assign mem l r = write_ref mem l (read_ref mem l - read_ref mem r)"

definition mul_assign :: "memory \<Rightarrow> double_ref \<Rightarrow> double_ref \<Rightarrow> memory" where
  "mul_assign mem l r = write_ref mem l (read_ref mem l * read_ref mem r)"

definition div_assign :: "memory \<Rightarrow> double_ref \<Rightarrow> double_ref \<Rightarrow> memory" where
  "div_assign mem l r = write_ref mem l (read_ref mem l / read_ref mem r)"

definition operator_plus_assign :: "memory \<Rightarrow> addr \<Rightarrow> addr \<Rightarrow> memory \<times> addr" where
  \<comment> \<open>\<open>Point& operator+=(const Point& p)\<close>\<close>
  "operator_plus_assign mem this p =
     (let mem1 = add_assign mem (Coord_ref this I0) (Coord_ref p I0);
          mem2 = add_assign mem1 (Coord_ref this I1) (Coord_ref p I1);
          mem3 = add_assign mem2 (Coord_ref this I2) (Coord_ref p I2)
      in (mem3, this))"

definition operator_minus_assign :: "memory \<Rightarrow> addr \<Rightarrow> addr \<Rightarrow> memory \<times> addr" where
  \<comment> \<open>\<open>Point& operator-=(const Point& p)\<close>\<close>
  "operator_minus_assign mem this p =
     (let mem1 = sub_assign mem (Coord_ref this I0) (Coord_ref p I0);
          mem2 = sub_assign mem1 (Coord_ref this I1) (Coord_ref p I1);
          mem3 = sub_assign mem2 (Coord_ref this I2) (Coord_ref p I2)
      in (mem3, this))"

definition operator_times_assign :: "memory \<Rightarrow> addr \<Rightarrow> double_ref \<Rightarrow> memory \<times> addr" where
  \<comment> \<open>\<open>Point& operator*=(const double& d)\<close>\<close>
  "operator_times_assign mem this d =
     (let mem1 = mul_assign mem (Coord_ref this I0) d;
          mem2 = mul_assign mem1 (Coord_ref this I1) d;
          mem3 = mul_assign mem2 (Coord_ref this I2) d
      in (mem3, this))"

definition operator_divide_assign :: "memory \<Rightarrow> addr \<Rightarrow> double_ref \<Rightarrow> memory \<times> addr" where
  \<comment> \<open>\<open>Point& operator/=(const double& d)\<close>\<close>
  "operator_divide_assign mem this d =
     (let mem1 = div_assign mem (Coord_ref this I0) d;
          mem2 = div_assign mem1 (Coord_ref this I1) d;
          mem3 = div_assign mem2 (Coord_ref this I2) d
      in (mem3, this))"

definition x_ref :: "addr \<Rightarrow> double_ref" where
  \<comment> \<open>\<open>double& x()\<close>\<close>
  "x_ref this = Coord_ref this I0"

definition y_ref :: "addr \<Rightarrow> double_ref" where
  \<comment> \<open>\<open>double& y()\<close>\<close>
  "y_ref this = Coord_ref this I1"

definition z_ref :: "addr \<Rightarrow> double_ref" where
  \<comment> \<open>\<open>double& z()\<close>\<close>
  "z_ref this = Coord_ref this I2"

definition operator_index :: "addr \<Rightarrow> int \<Rightarrow> double_ref option" where
  \<comment> \<open>\<open>double& operator[](const int i)\<close>: \<open>return xyz[i]\<close>\<close>
  "operator_index this i = map_option (Coord_ref this) (index3_of_int i)"

definition transform :: "memory \<Rightarrow> addr \<Rightarrow> addr \<Rightarrow> memory \<times> addr" where
  \<comment> \<open>\<open>Point& transform(const Matrix4d& m)\<close>\<close>
  "transform mem this m =
     (let new_x = elem0 (xyz (points mem this)) * at0 (at0 (matrices mem m))
                    + elem1 (xyz (points mem this)) * at1 (at0 (matrices mem m))
                    + elem2 (xyz (points mem this)) * at2 (at0 (matrices mem m))
                    + at3 (at0 (matrices mem m));
          new_y = elem0 (xyz (points mem this)) * at0 (at1 (matrices mem m))
                    + elem1 (xyz (points mem this)) * at1 (at1 (matrices mem m))
                    + elem2 (xyz (points mem this)) * at2 (at1 (matrices mem m))
                    + at3 (at1 (matrices mem m));
          new_z = elem0 (xyz (points mem this)) * at0 (at2 (matrices mem m))
                    + elem1 (xyz (points mem this)) * at1 (at2 (matrices mem m))
                    + elem2 (xyz (points mem this)) * at2 (at2 (matrices mem m))
                    + at3 (at2 (matrices mem m));
          mem1 = write_ref mem (Coord_ref this I0) new_x;
          mem2 = write_ref mem1 (Coord_ref this I1) new_y;
          mem3 = write_ref mem2 (Coord_ref this I2) new_z
      in (mem3, this))"

text \<open>A call of a const method through references: the operands are read, nothing is
  written, and the caller gets the result by value.\<close>

definition call_const :: "(Point \<Rightarrow> 'r) \<Rightarrow> memory \<Rightarrow> addr \<Rightarrow> memory \<times> 'r" where
  "call_const f mem this = (mem, f (points mem this))"

definition call_const_point ::
  "(Point \<Rightarrow> Point \<Rightarrow> 'r) \<Rightarrow> memory \<Rightarrow> addr \<Rightarrow> addr \<Rightarrow> memory \<times> 'r" where
  "call_const_point f mem this p = (mem, f (points mem this) (points mem p))"

definition call_const_scalar ::
  "(Point \<Rightarrow> double \<Rightarrow> 'r) \<Rightarrow> memory \<Rightarrow> addr \<Rightarrow> double_ref \<Rightarrow> memory \<times> 'r" where
  "call_const_scalar f mem this d = (mem, f (points mem this) (read_ref mem d))"

definition identity4 :: Matrix4d where
  "identity4 =
     Array4 (Array4 1 0 0 0) (Array4 0 1 0 0) (Array4 0 0 1 0) (Array4 0 0 0 1)"

text \<open>Points whose three coordinates are all finite doubles, and points none of whose
  coordinates is NaN.\<close>

definition finite_coords :: "Point \<Rightarrow> bool" where
  "finite_coords p \<longleftrightarrow>
     is_finite (elem0 (xyz p)) \<and> is_finite (elem1 (xyz p)) \<and> is_finite (elem2 (xyz p))"

definition is_number :: "double \<Rightarrow> bool" where
  "is_number x \<longleftrightarrow> is_finite x \<or> is_infinite x"

definition number_coords :: "Point \<Rightarrow> bool" where
  "number_coords p \<longleftrightarrow>
     is_number (elem0 (xyz p)) \<and> is_number (elem1 (xyz p)) \<and> is_number (elem2 (xyz p))"

text \<open>Concrete inputs: a matrix with the rows of the identity above a perspective row, and
  the memory in which every \<open>Point\<close> object holds \<open>p\<close> and every matrix object holds \<open>M\<close>.\<close>

definition perspective4 :: Matrix4d where
  "perspective4 =
     Array4 (Array4 1 0 0 0) (Array4 0 1 0 0) (Array4 0 0 1 0) (Array4 1 1 1 0)"

definition memory_of :: "Point \<Rightarrow> Matrix4d \<Rightarrow> memory" where
  "memory_of p M = \<lparr>points = (\<lambda>a. p), scalars = (\<lambda>a. 0), matrices = (\<lambda>a. M)\<rparr>"

definition is_nonneg :: "double \<Rightarrow> bool" where
  \<comment> \<open>not NaN, and the sign bit is clear\<close>
  "is_nonneg x = (case x of Finite s m e \<Rightarrow> \<not> s | Infinity s \<Rightarrow> \<not> s | NaN \<Rightarrow> False)"

definition nan_free :: "Point \<Rightarrow> bool" where
  "nan_free p \<longleftrightarrow>
     \<not> is_nan (elem0 (xyz p)) \<and> \<not> is_nan (elem1 (xyz p)) \<and> \<not> is_nan (elem2 (xyz p))"

text \<open>The doubles \<open>2^600\<close> and \<open>2^-600\<close> (C++ \<open>0x1p600\<close> and \<open>0x1p-600\<close>): the square of the
  first overflows, the square of the second underflows.\<close>

definition two_to_600 :: double where
  "two_to_600 = Finite False (2 ^ 52) 548"

definition two_to_minus_600 :: double where
  "two_to_minus_600 = Finite False (2 ^ 52) (- 652)"

text \<open>The real number a finite double stands for (0 for infinities and NaN), and the last
  step of rounding: a significand that was rounded up to \<open>2^53\<close> moves to the next exponent,
  and an exponent above \<open>emax\<close> overflows to infinity.\<close>

definition valof :: "double \<Rightarrow> real" where
  "valof x =
     (case x of
        Finite s m e \<Rightarrow> (if s then - real m else real m) * 2 powi e
      | Infinity s \<Rightarrow> 0
      | NaN \<Rightarrow> 0)"

definition pack_double :: "bool \<Rightarrow> nat \<Rightarrow> int \<Rightarrow> double" where
  "pack_double s q e =
     (if q = 2 ^ 53 then (if e + 1 > emax then Infinity s else Finite s (2 ^ 52) (e + 1))
      else if e > emax then Infinity s else Finite s q e)"

text \<open>
  The conditions under which the norms of \<open>p\<close> are in order. \<open>no_underflow p\<close>: no
  coordinate is NaN, and the largest coordinate magnitude \<open>normInf(p)\<close> is zero or at least
  \<open>2^-511\<close> (C++ \<open>0x1p-511\<close>), so that its square is zero or at least \<open>2^-1022\<close>, the least
  normal double. \<open>no_overflow p\<close>: the sum of squares that \<open>norm2\<close> takes the root of is
  finite, or else \<open>norm1(p)\<close> is infinite as well.
\<close>

definition two_to_minus_511 :: double where
  "two_to_minus_511 = Finite False (2 ^ 52) (- 563)"

definition no_underflow :: "Point \<Rightarrow> bool" where
  "no_underflow p \<longleftrightarrow>
     number_coords p \<and> (is_zero (normInf p) \<or> two_to_minus_511 \<le> normInf p)"

definition no_overflow :: "Point \<Rightarrow> bool" where
  "no_overflow p \<longleftrightarrow>
     is_finite (elem0 (xyz p) * elem0 (xyz p) + elem1 (xyz p) * elem1 (xyz p)
                  + elem2 (xyz p) * elem2 (xyz p))
     \<or> is_infinite (norm1 p)"

section \<open>Facts about doubles\<close>

lemma bitlen_le_iff: "bitlen m \<le> n \<longleftrightarrow> m < 2 ^ n"
proof (induction m arbitrary: n rule: bitlen.induct)
  case (1 m)
  show ?case
  proof (cases "m = 0")
    case True
    then show ?thesis by (simp add: bitlen.simps)
  next
    case False
    show ?thesis
    proof (cases n)
      case 0
      with False show ?thesis by (simp add: bitlen.simps [of m])
    next
      case (Suc k)
      have "bitlen m \<le> Suc k \<longleftrightarrow> bitlen (m div 2) \<le> k"
        using False by (simp add: bitlen.simps [of m])
      also have "\<dots> \<longleftrightarrow> m div 2 < 2 ^ k"
        using "1.IH" [OF False] by simp
      also have "\<dots> \<longleftrightarrow> m < 2 ^ Suc k"
        by (simp add: less_mult_imp_div_less div_less_iff_less_mult mult.commute)
      finally show ?thesis using Suc by simp
    qed
  qed
qed

lemma bitlen_double: "0 < m \<Longrightarrow> bitlen (2 * m) = Suc (bitlen m)"
  by (simp add: bitlen.simps [of "2 * m"])

lemma bitlen_shift: "0 < m \<Longrightarrow> bitlen (m * 2 ^ k) = bitlen m + k"
proof (induction k)
  case 0
  then show ?case by simp
next
  case (Suc k)
  have eq: "m * 2 ^ Suc k = 2 * (m * 2 ^ k)" by simp
  have pos: "0 < m * 2 ^ k" using Suc.prems by simp
  show ?case
    unfolding eq bitlen_double [OF pos] using Suc by simp
qed

lemma bitlen_normal: "2 ^ 52 \<le> m \<Longrightarrow> m < 2 ^ 53 \<Longrightarrow> bitlen m = 53"
proof -
  assume a: "2 ^ 52 \<le> m" and b: "m < 2 ^ 53"
  have "bitlen m \<le> 53" using b bitlen_le_iff by blast
  moreover have "\<not> bitlen m \<le> 52" using a bitlen_le_iff [of m 52] by simp
  ultimately show ?thesis by simp
qed

lemma round_double_exact:
  assumes "is_finite (Finite s m e)" and "0 < m"
  shows "round_double s (m * 2 ^ k) (e - int k) False = Finite s m e"
proof -
  from assms(1) have m53: "m < 2 ^ 53" and lo: "emin \<le> e" and hi: "e \<le> emax"
    and sub: "m < 2 ^ 52 \<Longrightarrow> e = emin"
    by (simp_all add: is_finite_def)
  have bl: "bitlen (m * 2 ^ k) = bitlen m + k"
    using assms(2) by (rule bitlen_shift)
  have target: "max emin (e - int k + int (bitlen (m * 2 ^ k)) - 53) = e"
  proof (cases "m < 2 ^ 52")
    case True
    then have "bitlen m \<le> 52" using bitlen_le_iff by blast
    with sub [OF True] bl show ?thesis by simp
  next
    case False
    then have "bitlen m = 53" using m53 bitlen_normal by simp
    with bl lo show ?thesis by simp
  qed
  show ?thesis
  proof (cases k)
    case 0
    with target hi assms(2) show ?thesis
      by (simp add: round_double_def Let_def)
  next
    case (Suc j)
    have nz: "m * 2 ^ k \<noteq> 0" using assms(2) by simp
    have lt: "\<not> e \<le> e - int k" using Suc by simp
    have sh: "nat (e - (e - int k)) = k" by simp
    have q: "m * 2 ^ k div 2 ^ k = m" by simp
    have r: "m * 2 ^ k mod 2 ^ k = 0" by simp
    have ne: "m \<noteq> 2 ^ 53" using m53 by simp
    show ?thesis
      unfolding round_double_def Let_def target sh q r
      using nz lt hi ne by simp
  qed
qed

lemma bitlen_eqI: "2 ^ n \<le> m \<Longrightarrow> m < 2 ^ Suc n \<Longrightarrow> bitlen m = Suc n"
proof -
  assume a: "2 ^ n \<le> m" and b: "m < 2 ^ Suc n"
  have "bitlen m \<le> Suc n" using b bitlen_le_iff by blast
  moreover have "\<not> bitlen m \<le> n" using a bitlen_le_iff [of m n] by simp
  ultimately show ?thesis by simp
qed

lemmas double_eval = round_double_def Let_def emin_def emax_def signed_def double_of_nat_def


lemma is_finite_zeroD: "is_finite x \<Longrightarrow> is_zero x \<Longrightarrow> \<exists>s. x = Finite s 0 emin"
  by (cases x) (simp_all add: is_finite_def is_zero_def)

lemma is_finite_nonzeroD:
  "is_finite x \<Longrightarrow> \<not> is_zero x \<Longrightarrow> \<exists>s m e. x = Finite s m e \<and> 0 < m \<and> emin \<le> e"
  by (cases x) (simp_all add: is_finite_def is_zero_def)

lemma feq_refl: "is_finite x \<Longrightarrow> feq x x"
  by (cases x) (simp_all add: is_finite_def)

lemma feq_zeros: "is_zero x \<Longrightarrow> is_zero y \<Longrightarrow> feq x y"
  by (cases x; cases y) (simp_all add: is_zero_def signed_def)

lemma fadd_zero_right:
  assumes "is_finite x" and "\<not> is_zero x" and "is_finite z" and "is_zero z"
  shows "fadd x z = x"
proof -
  obtain s m e where x: "x = Finite s m e" and m: "0 < m" and e: "emin \<le> e"
    using is_finite_nonzeroD [OF assms(1,2)] by blast
  obtain t where z: "z = Finite t 0 emin"
    using is_finite_zeroD [OF assms(3,4)] by blast
  define k where "k = nat (e - emin)"
  have ek: "emin = e - int k" using e by (simp add: k_def)
  have a: "signed s m * 2 ^ k \<noteq> 0" using m by (simp add: signed_def)
  have neg: "(signed s m * 2 ^ k < 0) = s"
    using m by (simp add: signed_def mult_less_0_iff)
  have mag: "nat \<bar>signed s m * 2 ^ k\<bar> = m * 2 ^ k"
    by (simp add: signed_def abs_mult nat_mult_distrib nat_power_eq)
  have g: "min e emin = emin" using e by simp
  have sum: "signed s m * 2 ^ nat (e - emin) + signed t 0 * 2 ^ nat (emin - emin)
               = signed s m * 2 ^ k"
    by (simp add: k_def signed_def)
  have "fadd x z = round_double s (m * 2 ^ k) emin False"
    unfolding x z fadd.simps Let_def g sum using a neg mag by simp
  also have "\<dots> = Finite s m e"
    using round_double_exact [of s m e k] assms(1) m by (simp add: x ek [symmetric])
  finally show ?thesis by (simp add: x)
qed

lemma fadd_zero_left:
  assumes "is_finite x" and "\<not> is_zero x" and "is_finite z" and "is_zero z"
  shows "fadd z x = x"
proof -
  obtain s m e where x: "x = Finite s m e" and m: "0 < m" and e: "emin \<le> e"
    using is_finite_nonzeroD [OF assms(1,2)] by blast
  obtain t where z: "z = Finite t 0 emin"
    using is_finite_zeroD [OF assms(3,4)] by blast
  define k where "k = nat (e - emin)"
  have ek: "emin = e - int k" using e by (simp add: k_def)
  have a: "signed s m * 2 ^ k \<noteq> 0" using m by (simp add: signed_def)
  have neg: "(signed s m * 2 ^ k < 0) = s"
    using m by (simp add: signed_def mult_less_0_iff)
  have mag: "nat \<bar>signed s m * 2 ^ k\<bar> = m * 2 ^ k"
    by (simp add: signed_def abs_mult nat_mult_distrib nat_power_eq)
  have g: "min emin e = emin" using e by simp
  have sum: "signed t 0 * 2 ^ nat (emin - emin) + signed s m * 2 ^ nat (e - emin)
               = signed s m * 2 ^ k"
    by (simp add: k_def signed_def)
  have "fadd z x = round_double s (m * 2 ^ k) emin False"
    unfolding x z fadd.simps Let_def g sum using a neg mag by simp
  also have "\<dots> = Finite s m e"
    using round_double_exact [of s m e k] assms(1) m by (simp add: x ek [symmetric])
  finally show ?thesis by (simp add: x)
qed

lemma fadd_zero_zero:
  assumes "is_finite x" and "is_zero x" and "is_finite z" and "is_zero z"
  shows "is_finite (fadd x z) \<and> is_zero (fadd x z)"
proof -
  obtain s where x: "x = Finite s 0 emin"
    using is_finite_zeroD [OF assms(1,2)] by blast
  obtain t where z: "z = Finite t 0 emin"
    using is_finite_zeroD [OF assms(3,4)] by blast
  show ?thesis
    by (simp add: x z signed_def is_finite_def is_zero_def emin_def emax_def)
qed

lemma is_finite_one: "is_finite 1"
  by (simp add: one_double_def is_finite_def emin_def emax_def)

lemma is_finite_zero: "is_finite 0 \<and> is_zero 0"
  by (simp add: zero_double_def is_finite_def is_zero_def emin_def emax_def)

lemma fmul_one_right:
  assumes "is_finite x"
  shows "fmul x 1 = x"
proof (cases "is_zero x")
  case True
  then obtain s where "x = Finite s 0 emin"
    using is_finite_zeroD [OF assms] by blast
  then show ?thesis by (simp add: one_double_def round_double_def)
next
  case False
  then obtain s m e where x: "x = Finite s m e" and m: "0 < m"
    using is_finite_nonzeroD [OF assms] by blast
  have "fmul x 1 = round_double s (m * 2 ^ 52) (e - int 52) False"
    by (simp add: x one_double_def)
  also have "\<dots> = Finite s m e"
    using assms m unfolding x by (rule round_double_exact)
  finally show ?thesis by (simp add: x)
qed

lemma fmul_one_left:
  assumes "is_finite x"
  shows "fmul 1 x = x"
proof (cases "is_zero x")
  case True
  then obtain s where "x = Finite s 0 emin"
    using is_finite_zeroD [OF assms] by blast
  then show ?thesis by (simp add: one_double_def round_double_def)
next
  case False
  then obtain s m e where x: "x = Finite s m e" and m: "0 < m"
    using is_finite_nonzeroD [OF assms] by blast
  have "fmul 1 x = round_double s (m * 2 ^ 52) (e - int 52) False"
    by (simp add: x one_double_def mult.commute)
  also have "\<dots> = Finite s m e"
    using assms m unfolding x by (rule round_double_exact)
  finally show ?thesis by (simp add: x)
qed

lemma fmul_zero_right:
  assumes "is_finite x" and "is_finite z" and "is_zero z"
  shows "is_finite (fmul x z) \<and> is_zero (fmul x z)"
proof -
  obtain t where z: "z = Finite t 0 emin"
    using is_finite_zeroD [OF assms(2,3)] by blast
  from assms(1) show ?thesis
    by (cases x)
      (simp_all add: z round_double_def is_finite_def is_zero_def emin_def emax_def)
qed

lemma fmul_zero_left:
  assumes "is_finite x" and "is_finite z" and "is_zero z"
  shows "is_finite (fmul z x) \<and> is_zero (fmul z x)"
proof -
  obtain t where z: "z = Finite t 0 emin"
    using is_finite_zeroD [OF assms(2,3)] by blast
  from assms(1) show ?thesis
    by (cases x)
      (simp_all add: z round_double_def is_finite_def is_zero_def emin_def emax_def)
qed

lemma fsub_self: "is_finite x \<Longrightarrow> fsub x x = 0"
  by (cases x) (simp_all add: fsub_def is_finite_def signed_def zero_double_def)

section \<open>Rounding is monotone\<close>

text \<open>
  Where \<open>round_double\<close> puts its result relative to a finite double \<open>a\<close>: not below \<open>a\<close>
  when the exact value is not below \<open>a\<close> (\<open>round_double_lower\<close>), not above \<open>a\<close> when the exact
  value is not above \<open>a\<close> (\<open>round_double_upper\<close>). Addition and the square root inherit this.
\<close>

lemma bitlen_pos: "0 < m \<Longrightarrow> 0 < bitlen m"
  by (simp add: bitlen.simps [of m])

lemma bitlen_lower: "0 < m \<Longrightarrow> 2 ^ (bitlen m - 1) \<le> m"
proof -
  assume m: "0 < m"
  have "\<not> bitlen m \<le> bitlen m - 1" using bitlen_pos [OF m] by simp
  then show ?thesis using bitlen_le_iff [of m "bitlen m - 1"] by simp
qed

lemma bitlen_upper: "m < 2 ^ bitlen m"
  using bitlen_le_iff [of m "bitlen m"] by simp

lemma bitlen_div: "bitlen (m div 2 ^ k) = bitlen m - k"
proof (induction k arbitrary: m)
  case 0
  then show ?case by simp
next
  case (Suc k)
  have "m div 2 ^ Suc k = (m div 2) div 2 ^ k"
    by (simp add: div_mult2_eq)
  then have "bitlen (m div 2 ^ Suc k) = bitlen (m div 2) - k"
    using Suc by simp
  also have "\<dots> = bitlen m - Suc k"
    by (cases "m = 0") (simp_all add: bitlen.simps [of m] bitlen.simps [of 0])
  finally show ?case .
qed

lemma round_double_shape:
  assumes "0 < m"
  shows "(max emin (e + int (bitlen m) - 53) \<le> e
            \<and> round_double s m e st
                = pack_double s (m * 2 ^ nat (e - max emin (e + int (bitlen m) - 53)))
                    (max emin (e + int (bitlen m) - 53)))
         \<or> (e < max emin (e + int (bitlen m) - 53)
            \<and> (\<exists>q'. (q' = m div 2 ^ nat (max emin (e + int (bitlen m) - 53) - e)
                       \<or> (q' = m div 2 ^ nat (max emin (e + int (bitlen m) - 53) - e) + 1
                           \<and> m mod 2 ^ nat (max emin (e + int (bitlen m) - 53) - e) \<noteq> 0))
                  \<and> round_double s m e st
                      = pack_double s q' (max emin (e + int (bitlen m) - 53))))"
proof -
  define e' where "e' = max emin (e + int (bitlen m) - 53)"
  have nz: "m \<noteq> 0" using assms by simp
  show ?thesis
  proof (cases "e' \<le> e")
    case True
    have "bitlen (m * 2 ^ nat (e - e')) = bitlen m + nat (e - e')"
      using assms by (rule bitlen_shift)
    also have "\<dots> \<le> 53"
    proof -
      have "e + int (bitlen m) - 53 \<le> e'" by (simp add: e'_def)
      then show ?thesis using True by linarith
    qed
    finally have "m * 2 ^ nat (e - e') < 2 ^ 53" using bitlen_le_iff by blast
    then have "m * 2 ^ nat (e - e') \<noteq> 2 ^ 53" by simp
    then have "round_double s m e st = pack_double s (m * 2 ^ nat (e - e')) e'"
      using nz True unfolding round_double_def pack_double_def Let_def e'_def [symmetric]
      by simp
    then show ?thesis using True unfolding e'_def by blast
  next
    case False
    define sh where "sh = nat (e' - e)"
    define q where "q = m div 2 ^ sh"
    define r where "r = m mod 2 ^ sh"
    define up where "up \<longleftrightarrow> r > 2 ^ (sh - 1) \<or> (r = 2 ^ (sh - 1) \<and> (st \<or> q mod 2 = 1))"
    define q' where "q' = (if up then q + 1 else q)"
    have rd: "round_double s m e st = pack_double s q' e'"
      using nz False
      unfolding round_double_def pack_double_def Let_def e'_def [symmetric]
        sh_def [symmetric] q_def [symmetric] r_def [symmetric] up_def [symmetric]
        q'_def [symmetric]
      by simp
    have "up \<Longrightarrow> r \<noteq> 0" unfolding up_def by auto
    then have "q' = q \<or> (q' = q + 1 \<and> r \<noteq> 0)" unfolding q'_def by auto
    then show ?thesis
      using rd False unfolding e'_def q_def r_def sh_def by auto
  qed
qed

lemma powi_shift: "(2::real) powi (e + int k) = 2 powi e * 2 ^ k"
  by (simp add: power_int_add)

lemma powi_split: "e \<le> f \<Longrightarrow> (2::real) powi f = 2 powi e * 2 ^ nat (f - e)"
  using powi_shift [of e "nat (f - e)"] by simp

lemma powi_mono: "e \<le> f \<Longrightarrow> (2::real) powi e \<le> 2 powi f"
  by (rule power_int_increasing) simp_all

lemma powi_pos: "0 < (2::real) powi e"
  by simp

lemma round_double_grid_cases:
  assumes "0 < m"
  obtains e' q' where "emin \<le> e'" and "q' \<le> 2 ^ 53" and "emin < e' \<Longrightarrow> 2 ^ 52 \<le> q'"
    and "round_double s m e st = pack_double s q' e'"
    and "emin < e' \<Longrightarrow> e < e' \<Longrightarrow> 2 ^ 52 \<le> m div 2 ^ nat (e' - e)"
    and "(e' \<le> e \<and> bitlen m \<le> 53 \<and> q' = m * 2 ^ nat (e - e'))
         \<or> (e < e' \<and> (q' = m div 2 ^ nat (e' - e)
                         \<or> (q' = m div 2 ^ nat (e' - e) + 1 \<and> m mod 2 ^ nat (e' - e) \<noteq> 0)))"
proof -
  define e' where "e' = max emin (e + int (bitlen m) - 53)"
  have lo: "emin \<le> e'" by (simp add: e'_def)
  have ge: "e + int (bitlen m) - 53 \<le> e'" by (simp add: e'_def)
  have norm: "e' = e + int (bitlen m) - 53" if "emin < e'"
    using that by (simp add: e'_def max_def split: if_splits)
  from round_double_shape [OF assms, of e s st]
  consider (exact) "e' \<le> e"
      "round_double s m e st = pack_double s (m * 2 ^ nat (e - e')) e'"
    | (inexact) q' where "e < e'"
      "q' = m div 2 ^ nat (e' - e)
         \<or> (q' = m div 2 ^ nat (e' - e) + 1 \<and> m mod 2 ^ nat (e' - e) \<noteq> 0)"
      "round_double s m e st = pack_double s q' e'"
    unfolding e'_def by blast
  then show thesis
  proof cases
    case exact
    have bl: "bitlen (m * 2 ^ nat (e - e')) = bitlen m + nat (e - e')"
      using assms by (rule bitlen_shift)
    have b53: "bitlen m + nat (e - e') \<le> 53" using ge exact(1) by linarith
    then have "m * 2 ^ nat (e - e') < 2 ^ 53" using bl bitlen_le_iff by metis
    then have a: "m * 2 ^ nat (e - e') \<le> 2 ^ 53" by simp
    have b: "2 ^ 52 \<le> m * 2 ^ nat (e - e')" if "emin < e'"
    proof -
      have "bitlen m + nat (e - e') = 53" using norm [OF that] exact(1) by linarith
      then have "\<not> bitlen (m * 2 ^ nat (e - e')) \<le> 52" using bl by simp
      then show ?thesis using bitlen_le_iff [of "m * 2 ^ nat (e - e')" 52] by simp
    qed
    have c: "bitlen m \<le> 53" using b53 by simp
    show ?thesis using that [OF lo a b exact(2)] exact(1) c by force
  next
    case inexact
    define sh where "sh = nat (e' - e)"
    define q where "q = m div 2 ^ sh"
    have blq: "bitlen q = bitlen m - sh" unfolding q_def by (rule bitlen_div)
    have "int (bitlen m) - int sh \<le> 53" using ge inexact(1) by (simp add: sh_def)
    then have "bitlen q \<le> 53" using blq by linarith
    then have q53: "q < 2 ^ 53" using bitlen_le_iff by blast
    have q52: "2 ^ 52 \<le> q" if "emin < e'"
    proof -
      have "int (bitlen m) - int sh = 53" using norm [OF that] inexact(1) by (simp add: sh_def)
      then have "bitlen q = 53" using blq by linarith
      then have "\<not> bitlen q \<le> 52" by simp
      then show ?thesis using bitlen_le_iff [of q 52] by simp
    qed
    from inexact(2) have q': "q' = q \<or> q' = q + 1" unfolding q_def sh_def by blast
    have a: "q' \<le> 2 ^ 53" using q' q53 by auto
    have b: "2 ^ 52 \<le> q'" if "emin < e'" using q' q52 [OF that] by auto
    have d: "2 ^ 52 \<le> m div 2 ^ nat (e' - e)" if "emin < e'" "e < e'"
      using q52 [OF that(1)] unfolding q_def sh_def .
    show ?thesis using that [OF lo a b inexact(3) d] inexact(1,2) by blast
  qed
qed

lemma round_double_grid:
  assumes "0 < m"
  shows "\<exists>e' q'. emin \<le> e' \<and> q' \<le> 2 ^ 53 \<and> (emin < e' \<longrightarrow> 2 ^ 52 \<le> q')
           \<and> round_double s m e st = pack_double s q' e'
           \<and> (emin < e' \<and> e < e' \<longrightarrow> 2 ^ 52 \<le> m div 2 ^ nat (e' - e))
           \<and> ((e' \<le> e \<and> bitlen m \<le> 53 \<and> q' = m * 2 ^ nat (e - e'))
                \<or> (e < e' \<and> (q' = m div 2 ^ nat (e' - e)
                         \<or> (q' = m div 2 ^ nat (e' - e) + 1
                              \<and> m mod 2 ^ nat (e' - e) \<noteq> 0))))"
proof (rule round_double_grid_cases [OF assms, of s e st])
  fix e' q'
  assume "emin \<le> e'" and "q' \<le> 2 ^ 53" and "emin < e' \<Longrightarrow> 2 ^ 52 \<le> q'"
    and "round_double s m e st = pack_double s q' e'"
    and "emin < e' \<Longrightarrow> e < e' \<Longrightarrow> 2 ^ 52 \<le> m div 2 ^ nat (e' - e)"
    and "(e' \<le> e \<and> bitlen m \<le> 53 \<and> q' = m * 2 ^ nat (e - e'))
         \<or> (e < e' \<and> (q' = m div 2 ^ nat (e' - e)
                         \<or> (q' = m div 2 ^ nat (e' - e) + 1 \<and> m mod 2 ^ nat (e' - e) \<noteq> 0)))"
  then show ?thesis by (intro exI [of _ e'] exI [of _ q']) blast
qed

lemma pack_double_value:
  "pack_double s q e = Infinity s
   \<or> (\<exists>Q E. pack_double s q e = Finite s Q E \<and> real Q * 2 powi E = real q * 2 powi e)"
proof (cases "q = 2 ^ 53")
  case True
  have "(2::real) ^ 52 * 2 powi (e + 1) = 2 ^ 53 * 2 powi e"
    by (simp add: power_int_add)
  then show ?thesis using True by (simp add: pack_double_def)
next
  case False
  then show ?thesis by (simp add: pack_double_def)
qed

lemma pack_double_valid:
  assumes "emin \<le> e" and "q \<le> 2 ^ 53" and "emin < e \<Longrightarrow> 2 ^ 52 \<le> q"
  shows "pack_double s q e = Infinity s \<or> is_finite (pack_double s q e)"
proof (cases "q = 2 ^ 53")
  case True
  then show ?thesis using assms(1) by (simp add: pack_double_def is_finite_def)
next
  case False
  with assms(2) have "q < 2 ^ 53" by simp
  moreover have "q < 2 ^ 52 \<Longrightarrow> e = emin" using assms(1,3) by fastforce
  ultimately show ?thesis using False assms(1) by (auto simp add: pack_double_def is_finite_def)
qed

lemma round_double_valid:
  "round_double s m e st = Infinity s \<or> is_finite (round_double s m e st)"
proof (cases "m = 0")
  case True
  then show ?thesis
    by (simp add: round_double_def is_finite_def emin_def emax_def)
next
  case False
  then have "0 < m" by simp
  from round_double_grid [OF this, of s e st]
  obtain e' q' where "emin \<le> e'" "q' \<le> 2 ^ 53" "emin < e' \<longrightarrow> 2 ^ 52 \<le> q'"
      "round_double s m e st = pack_double s q' e'"
    by blast
  then show ?thesis using pack_double_valid [of e' q' s] by metis
qed

lemma on_grid:
  assumes "e' \<le> ea"
  shows "real ma * 2 powi ea = real (ma * 2 ^ nat (ea - e')) * 2 powi e'"
  using powi_split [OF assms] by simp

lemma below_grid:
  assumes "ma < 2 ^ 53" and "ea < e'"
  shows "real ma * 2 powi ea < 2 ^ 52 * 2 powi e'"
proof -
  have "real ma * 2 powi ea < 2 ^ 53 * 2 powi ea"
    using assms(1) by (simp add: less_le_trans [OF _ order_refl] of_nat_less_numeral_power_cancel_iff)
  also have "\<dots> \<le> 2 ^ 53 * 2 powi (e' - 1)"
    using powi_mono [of ea "e' - 1"] assms(2) by simp
  also have "\<dots> = 2 ^ 52 * 2 powi e'"
    by (simp add: power_int_diff)
  finally show ?thesis .
qed

lemma scale_ge_pow52:
  assumes "2 ^ 52 \<le> (q::nat)"
  shows "(2::real) ^ 52 * 2 powi e \<le> real q * 2 powi e"
proof -
  have "real (2 ^ 52) \<le> real q" using assms by (rule iffD2 [OF of_nat_le_iff])
  then have "(2::real) ^ 52 \<le> real q" by simp
  then show ?thesis by (rule mult_right_mono) simp
qed

lemma round_double_lower:
  assumes m: "0 < m" and a: "is_finite (Finite False ma ea)"
    and bound: "real ma * 2 powi ea \<le> real m * 2 powi e
                  \<or> (real ma * 2 powi ea < (real m + 1) * 2 powi e \<and> 53 < bitlen m)"
  shows "round_double False m e st = Infinity False
         \<or> (\<exists>q f. round_double False m e st = Finite False q f
                \<and> real ma * 2 powi ea \<le> real q * 2 powi f)"
proof -
  from a have ma: "ma < 2 ^ 53" and ea: "emin \<le> ea" by (simp_all add: is_finite_def)
  from round_double_grid [OF m, of False e st]
  obtain e' q' where lo: "emin \<le> e'" and q52': "emin < e' \<longrightarrow> 2 ^ 52 \<le> q'"
    and rd: "round_double False m e st = pack_double False q' e'"
    and shape: "(e' \<le> e \<and> bitlen m \<le> 53 \<and> q' = m * 2 ^ nat (e - e'))
         \<or> (e < e' \<and> (q' = m div 2 ^ nat (e' - e)
                         \<or> (q' = m div 2 ^ nat (e' - e) + 1 \<and> m mod 2 ^ nat (e' - e) \<noteq> 0)))"
    by blast
  note q52 = q52' [rule_format]
  have key: "real ma * 2 powi ea \<le> real q' * 2 powi e'"
  proof (cases "e' \<le> e")
    case True
    with shape have b53: "bitlen m \<le> 53" and q': "q' = m * 2 ^ nat (e - e')" by auto
    from bound b53 have "real ma * 2 powi ea \<le> real m * 2 powi e" by auto
    also have "\<dots> = real q' * 2 powi e'"
      unfolding q' using on_grid [OF True, of m] .
    finally show ?thesis .
  next
    case False
    define sh where "sh = nat (e' - e)"
    define q where "q = m div 2 ^ sh"
    from False shape have qq: "q \<le> q'" unfolding q_def sh_def by auto
    have e': "2 powi e' = (2::real) powi e * 2 ^ sh"
      unfolding sh_def using powi_split [of e e'] False by simp
    show ?thesis
    proof (cases "e' \<le> ea")
      case True
      define A where "A = ma * 2 ^ nat (ea - e')"
      have va: "real ma * 2 powi ea = real A * 2 powi e'"
        unfolding A_def by (rule on_grid [OF True])
      from bound have "real ma * 2 powi ea < (real m + 1) * 2 powi e"
        by (auto intro: le_less_trans simp add: mult_strict_right_mono)
      then have "real A * 2 ^ sh * 2 powi e < (real m + 1) * 2 powi e"
        unfolding va e' by (simp add: mult.commute mult.left_commute)
      then have "real A * 2 ^ sh < real m + 1"
        using powi_pos [of e] by (simp add: mult_less_cancel_right)
      then have "real (A * 2 ^ sh) < real (m + 1)" by simp
      then have "A * 2 ^ sh < m + 1" using of_nat_less_iff by blast
      then have "A * 2 ^ sh \<le> m" by simp
      then have "A \<le> q" unfolding q_def by (simp add: less_eq_div_iff_mult_less_eq)
      then have "A \<le> q'" using qq by simp
      then show ?thesis unfolding va by (simp add: mult_right_mono)
    next
      case False
      then have lt: "ea < e'" by simp
      then have "emin < e'" using ea by simp
      then have "2 ^ 52 \<le> q'" by (rule q52)
      then have "(2::real) ^ 52 * 2 powi e' \<le> real q' * 2 powi e'"
        by (rule scale_ge_pow52)
      with below_grid [OF ma lt] show ?thesis by (rule less_imp_le [OF less_le_trans])
    qed
  qed
  from pack_double_value [of False q' e'] show ?thesis
    unfolding rd using key by auto
qed

lemma finite_below_top:
  assumes "is_finite (Finite False ma ea)"
  shows "real ma * 2 powi ea < 2 ^ 53 * 2 powi emax"
proof -
  from assms have ma: "ma < 2 ^ 53" and ea: "ea \<le> emax" by (simp_all add: is_finite_def)
  have "real ma < real (2 ^ 53)" using ma by (rule iffD2 [OF of_nat_less_iff])
  then have "real ma < 2 ^ 53" by simp
  then have "real ma * 2 powi ea < 2 ^ 53 * 2 powi ea"
    by (rule mult_strict_right_mono) simp
  also have "\<dots> \<le> 2 ^ 53 * 2 powi emax"
    using powi_mono [OF ea] by simp
  finally show ?thesis .
qed

lemma round_double_upper:
  assumes m: "0 < m" and a: "is_finite (Finite False ma ea)"
    and bound: "real m * 2 powi e \<le> real ma * 2 powi ea"
  shows "\<exists>q f. round_double False m e st = Finite False q f
           \<and> real q * 2 powi f \<le> real ma * 2 powi ea"
proof -
  from a have ma: "ma < 2 ^ 53" and ea: "emin \<le> ea" by (simp_all add: is_finite_def)
  from round_double_grid [OF m, of False e st]
  obtain e' q' where lo: "emin \<le> e'" and q53: "q' \<le> 2 ^ 53"
    and q52': "emin < e' \<longrightarrow> 2 ^ 52 \<le> q'"
    and rd: "round_double False m e st = pack_double False q' e'"
    and fl52': "emin < e' \<and> e < e' \<longrightarrow> 2 ^ 52 \<le> m div 2 ^ nat (e' - e)"
    and shape: "(e' \<le> e \<and> bitlen m \<le> 53 \<and> q' = m * 2 ^ nat (e - e'))
         \<or> (e < e' \<and> (q' = m div 2 ^ nat (e' - e)
                         \<or> (q' = m div 2 ^ nat (e' - e) + 1 \<and> m mod 2 ^ nat (e' - e) \<noteq> 0)))"
    by blast
  note q52 = q52' [rule_format]
  have fl52: "2 ^ 52 \<le> m div 2 ^ nat (e' - e)" if "emin < e'" "e < e'"
    using fl52' that by blast
  have key: "real q' * 2 powi e' \<le> real ma * 2 powi ea"
  proof (cases "e' \<le> e")
    case True
    with shape have q': "q' = m * 2 ^ nat (e - e')" by auto
    have "real q' * 2 powi e' = real m * 2 powi e"
      unfolding q' by (rule on_grid [OF True, of m, symmetric])
    then show ?thesis using bound by simp
  next
    case False
    define sh where "sh = nat (e' - e)"
    define q where "q = m div 2 ^ sh"
    have e': "2 powi e' = (2::real) powi e * 2 ^ sh"
      unfolding sh_def using powi_split [of e e'] False by simp
    have qm: "q * 2 ^ sh \<le> m" unfolding q_def by simp
    have qval: "real q * 2 powi e' = real (q * 2 ^ sh) * 2 powi e"
      unfolding e' by simp
    from False shape have cases: "q' = q \<or> (q' = q + 1 \<and> m mod 2 ^ sh \<noteq> 0)"
      unfolding q_def sh_def by auto
    then show ?thesis
    proof
      assume "q' = q"
      have "real q' * 2 powi e' = real (q * 2 ^ sh) * 2 powi e"
        unfolding \<open>q' = q\<close> by (rule qval)
      also have "\<dots> \<le> real m * 2 powi e"
        using qm by (intro mult_right_mono iffD2 [OF of_nat_le_iff]) simp_all
      also note bound
      finally show ?thesis .
    next
      assume up: "q' = q + 1 \<and> m mod 2 ^ sh \<noteq> 0"
      have "m = q * 2 ^ sh + m mod 2 ^ sh"
        unfolding q_def by (rule div_mult_mod_eq [symmetric])
      with up have strict: "q * 2 ^ sh < m" by linarith
      note qval
      also have "real (q * 2 ^ sh) * 2 powi e < real m * 2 powi e"
        using strict by (intro mult_strict_right_mono iffD2 [OF of_nat_less_iff]) simp_all
      also note bound
      finally have above: "real q * 2 powi e' < real ma * 2 powi ea" .
      show ?thesis
      proof (cases "e' \<le> ea")
        case True
        define A where "A = ma * 2 ^ nat (ea - e')"
        have va: "real ma * 2 powi ea = real A * 2 powi e'"
          unfolding A_def by (rule on_grid [OF True])
        from above have "real q * 2 powi e' < real A * 2 powi e'" unfolding va .
        then have "real q < real A"
          using powi_pos [of e'] by (simp add: mult_less_cancel_right)
        then have "q < A" using of_nat_less_iff by blast
        then have "q' \<le> A" using up by simp
        then have "real q' * 2 powi e' \<le> real A * 2 powi e'"
          by (intro mult_right_mono iffD2 [OF of_nat_le_iff]) simp_all
        then show ?thesis unfolding va .
      next
        case False
        then have lt: "ea < e'" by simp
        then have "emin < e'" using ea by simp
        moreover have "e < e'" using \<open>\<not> e' \<le> e\<close> by simp
        ultimately have "2 ^ 52 \<le> q" unfolding q_def sh_def by (rule fl52)
        then have "(2::real) ^ 52 * 2 powi e' \<le> real q * 2 powi e'"
          by (rule scale_ge_pow52)
        with below_grid [OF ma lt] above show ?thesis by linarith
      qed
    qed
  qed
  have top: "real ma * 2 powi ea < 2 ^ 53 * 2 powi emax"
    using a by (rule finite_below_top)
  have fin: "\<exists>Q E. pack_double False q' e' = Finite False Q E"
  proof (cases "q' = 2 ^ 53")
    case True
    have "(2::real) ^ 53 * 2 powi e' < 2 ^ 53 * 2 powi emax"
      using key top True by simp
    then have "(2::real) powi e' < 2 powi emax" by simp
    then have "e' < emax"
      using powi_mono [of emax e'] by (cases "e' < emax") simp_all
    then show ?thesis using True by (simp add: pack_double_def)
  next
    case False
    have "e' \<le> emax"
    proof (rule ccontr)
      assume "\<not> e' \<le> emax"
      then have big: "emax + 1 \<le> e'" by simp
      have "emin < e'" using big by (simp add: emin_def emax_def)
      then have "2 ^ 52 \<le> q'" by (rule q52)
      then have "(2::real) ^ 52 * 2 powi e' \<le> real q' * 2 powi e'"
        by (rule scale_ge_pow52)
      moreover have "(2::real) ^ 52 * 2 powi (emax + 1) \<le> 2 ^ 52 * 2 powi e'"
        using powi_mono [OF big] by simp
      moreover have "(2::real) ^ 52 * 2 powi (emax + 1) = 2 ^ 53 * 2 powi emax"
        by (simp add: power_int_add)
      ultimately show False using key top by linarith
    qed
    then show ?thesis using False by (simp add: pack_double_def)
  qed
  from pack_double_value [of False q' e'] fin show ?thesis
    unfolding rd using key by auto
qed

lemma valof_Finite:
  "valof (Finite s m e) = (if s then - real m else real m) * 2 powi e"
  by (simp add: valof_def)

lemma signed_scaled:
  assumes "g \<le> e"
  shows "real_of_int (signed s m * 2 ^ nat (e - g)) * 2 powi g = valof (Finite s m e)"
proof -
  have "real_of_int (signed s m * 2 ^ nat (e - g)) * 2 powi g
          = real_of_int (signed s m) * (2 powi g * 2 ^ nat (e - g))"
    by simp
  also have "\<dots> = real_of_int (signed s m) * 2 powi e"
    unfolding powi_split [OF assms, symmetric] ..
  also have "\<dots> = valof (Finite s m e)"
    by (simp add: valof_Finite signed_def)
  finally show ?thesis .
qed

lemma flt_valof:
  "flt (Finite s m e) (Finite t n f) \<longleftrightarrow> valof (Finite s m e) < valof (Finite t n f)"
proof -
  define g where "g = min e f"
  define a where "a = signed s m * 2 ^ nat (e - g)"
  define b where "b = signed t n * 2 ^ nat (f - g)"
  have va: "real_of_int a * 2 powi g = valof (Finite s m e)"
    unfolding a_def by (rule signed_scaled) (simp add: g_def)
  have vb: "real_of_int b * 2 powi g = valof (Finite t n f)"
    unfolding b_def by (rule signed_scaled) (simp add: g_def)
  have "flt (Finite s m e) (Finite t n f) \<longleftrightarrow> a < b"
    by (simp add: Let_def a_def b_def g_def)
  also have "\<dots> \<longleftrightarrow> real_of_int a < real_of_int b"
    by (rule of_int_less_iff [symmetric])
  also have "\<dots> \<longleftrightarrow> real_of_int a * 2 powi g < real_of_int b * 2 powi g"
    by (rule mult_less_cancel_right_pos [symmetric]) (rule powi_pos)
  finally show ?thesis unfolding va vb .
qed

lemma feq_valof:
  "feq (Finite s m e) (Finite t n f) \<longleftrightarrow> valof (Finite s m e) = valof (Finite t n f)"
proof -
  define g where "g = min e f"
  define a where "a = signed s m * 2 ^ nat (e - g)"
  define b where "b = signed t n * 2 ^ nat (f - g)"
  have va: "real_of_int a * 2 powi g = valof (Finite s m e)"
    unfolding a_def by (rule signed_scaled) (simp add: g_def)
  have vb: "real_of_int b * 2 powi g = valof (Finite t n f)"
    unfolding b_def by (rule signed_scaled) (simp add: g_def)
  have "feq (Finite s m e) (Finite t n f) \<longleftrightarrow> a = b"
    by (simp add: Let_def a_def b_def g_def)
  also have "\<dots> \<longleftrightarrow> real_of_int a * 2 powi g = real_of_int b * 2 powi g"
    by simp
  finally show ?thesis unfolding va vb .
qed

lemma fle_valof:
  "Finite s m e \<le> Finite t n f \<longleftrightarrow> valof (Finite s m e) \<le> valof (Finite t n f)"
  unfolding less_eq_double_def fle_def flt_valof feq_valof by auto

lemma fle_Infinity: "Finite s m e \<le> Infinity False"
  by (simp add: less_eq_double_def fle_def)

lemma finite_nonnegE:
  assumes "is_finite x" and "is_nonneg x"
  obtains m e where "x = Finite False m e"
  using assms by (cases x) (simp_all add: is_finite_def is_nonneg_def)

lemma fadd_Finite_value:
  "fadd (Finite False m e) (Finite False n f) = Finite False 0 emin \<and> m = 0 \<and> n = 0
   \<or> (\<exists>k. 0 < k \<and> fadd (Finite False m e) (Finite False n f)
                     = round_double False k (min e f) False
          \<and> real k * 2 powi (min e f)
              = valof (Finite False m e) + valof (Finite False n f))"
proof -
  define g where "g = min e f"
  define a where "a = signed False m * 2 ^ nat (e - g) + signed False n * 2 ^ nat (f - g)"
  have nonneg: "0 \<le> a" by (simp add: a_def signed_def)
  have val: "real_of_int a * 2 powi g = valof (Finite False m e) + valof (Finite False n f)"
  proof -
    have "real_of_int a * 2 powi g
            = real_of_int (signed False m * 2 ^ nat (e - g)) * 2 powi g
              + real_of_int (signed False n * 2 ^ nat (f - g)) * 2 powi g"
      unfolding a_def by (simp add: algebra_simps)
    also have "\<dots> = valof (Finite False m e) + valof (Finite False n f)"
    proof -
      have g1: "g \<le> e" and g2: "g \<le> f" by (simp_all add: g_def)
      show ?thesis unfolding signed_scaled [OF g1] signed_scaled [OF g2] ..
    qed
    finally show ?thesis .
  qed
  have fa: "fadd (Finite False m e) (Finite False n f)
              = (if a = 0 then Finite False 0 emin else round_double False (nat \<bar>a\<bar>) g False)"
    using nonneg by (simp add: Let_def a_def g_def)
  show ?thesis
  proof (cases "a = 0")
    case True
    then have "m = 0 \<and> n = 0" by (auto simp add: a_def signed_def add_nonneg_eq_0_iff)
    then show ?thesis using fa True by simp
  next
    case False
    then have pos: "0 < nat a" using nonneg by simp
    have "real (nat a) = real_of_int a" using nonneg by simp
    then have "real (nat a) * 2 powi g = valof (Finite False m e) + valof (Finite False n f)"
      using val by simp
    moreover have "fadd (Finite False m e) (Finite False n f) = round_double False (nat a) g False"
      using fa False nonneg by simp
    ultimately show ?thesis using pos unfolding g_def by blast
  qed
qed

lemma valof_nonneg: "0 \<le> valof (Finite False m e)"
  by (simp add: valof_Finite)

lemma fadd_lower:
  assumes x: "is_finite x" "is_nonneg x" and y: "is_finite y" "is_nonneg y"
  shows "fadd x y = Infinity False
         \<or> (is_finite (fadd x y) \<and> is_nonneg (fadd x y)
              \<and> valof x \<le> valof (fadd x y) \<and> valof y \<le> valof (fadd x y))"
proof -
  obtain m e where xe: "x = Finite False m e" using x by (rule finite_nonnegE)
  obtain n f where ye: "y = Finite False n f" using y by (rule finite_nonnegE)
  from fadd_Finite_value [of m e n f]
  show ?thesis
  proof
    assume "fadd (Finite False m e) (Finite False n f) = Finite False 0 emin \<and> m = 0 \<and> n = 0"
    then have eq: "fadd x y = Finite False 0 emin" and "m = 0" and "n = 0"
      unfolding xe ye by blast+
    then show ?thesis
      unfolding eq xe ye
      by (simp add: is_finite_def is_nonneg_def valof_Finite emin_def emax_def)
  next
    assume "\<exists>k. 0 < k \<and> fadd (Finite False m e) (Finite False n f)
                     = round_double False k (min e f) False
          \<and> real k * 2 powi (min e f)
              = valof (Finite False m e) + valof (Finite False n f)"
    then obtain k where k: "0 < k"
      and r: "fadd x y = round_double False k (min e f) False"
      and v: "real k * 2 powi (min e f) = valof x + valof y"
      unfolding xe ye by blast
    have bx: "real m * 2 powi e \<le> real k * 2 powi (min e f)"
      unfolding v using valof_nonneg [of n f] by (simp add: xe ye valof_Finite)
    have by': "real n * 2 powi f \<le> real k * 2 powi (min e f)"
      unfolding v using valof_nonneg [of m e] by (simp add: xe ye valof_Finite)
    from round_double_valid [of False k "min e f" False]
    show ?thesis
    proof
      assume "round_double False k (min e f) False = Infinity False"
      then show ?thesis using r by simp
    next
      assume fin: "is_finite (round_double False k (min e f) False)"
      from round_double_lower [OF k x(1) [unfolded xe], of "min e f" False] bx fin
      obtain q1 f1 where r1: "round_double False k (min e f) False = Finite False q1 f1"
        and l1: "real m * 2 powi e \<le> real q1 * 2 powi f1"
        by (auto simp add: is_finite_def)
      from round_double_lower [OF k y(1) [unfolded ye], of "min e f" False] by' r1
      have l2: "real n * 2 powi f \<le> real q1 * 2 powi f1" by auto
      have eq: "fadd x y = Finite False q1 f1" using r r1 by simp
      have "is_finite (Finite False q1 f1)" using fin r1 by simp
      then show ?thesis
        unfolding eq using l1 l2
        by (simp add: xe ye valof_Finite is_nonneg_def)
    qed
  qed
qed

lemma isqrt_bounds: "isqrt n * isqrt n \<le> n \<and> n < (isqrt n + 1) * (isqrt n + 1)"
proof (induction n rule: isqrt.induct)
  case (1 n)
  show ?case
  proof (cases "n < 2")
    case True
    then have "n = 0 \<or> n = 1" by auto
    then show ?thesis by (auto simp add: isqrt.simps [of n])
  next
    case False
    define r where "r = isqrt (n div 4)"
    have IH: "r * r \<le> n div 4" "n div 4 < (r + 1) * (r + 1)"
      using "1.IH" [OF False] by (simp_all add: r_def)
    have up: "n < (2 * r + 2) * (2 * r + 2)"
    proof -
      have "n div 4 + 1 \<le> (r + 1) * (r + 1)" using IH(2) by simp
      then have "4 * (n div 4) + 4 \<le> 4 * ((r + 1) * (r + 1))" by simp
      moreover have "n < 4 * (n div 4) + 4"
        using div_mult_mod_eq [of n 4] by (simp add: mult.commute)
      moreover have "4 * ((r + 1) * (r + 1)) = (2 * r + 2) * (2 * r + 2)"
        by (simp add: algebra_simps)
      ultimately show ?thesis by linarith
    qed
    have lo: "(2 * r) * (2 * r) \<le> n"
    proof -
      have "(2 * r) * (2 * r) = 4 * (r * r)" by simp
      also have "\<dots> \<le> 4 * (n div 4)" using IH(1) by simp
      also have "\<dots> \<le> n" by simp
      finally show ?thesis .
    qed
    show ?thesis
    proof (cases "(2 * r + 1) * (2 * r + 1) \<le> n")
      case True
      then have "isqrt n = 2 * r + 1"
        using False by (simp add: isqrt.simps [of n] r_def Let_def)
      then show ?thesis using True up by (simp add: algebra_simps)
    next
      case nle: False
      then have "isqrt n = 2 * r"
        using False by (simp add: isqrt.simps [of n] r_def Let_def)
      then show ?thesis using nle lo by simp
    qed
  qed
qed

lemma isqrt_real:
  "real (isqrt n) \<le> sqrt (real n) \<and> sqrt (real n) < real (isqrt n) + 1"
proof -
  have a: "real (isqrt n * isqrt n) \<le> real n"
    using isqrt_bounds [of n] by (intro iffD2 [OF of_nat_le_iff]) simp
  have b: "real n < real ((isqrt n + 1) * (isqrt n + 1))"
    using isqrt_bounds [of n] by (intro iffD2 [OF of_nat_less_iff]) simp
  have "real (isqrt n * isqrt n) = (real (isqrt n))\<^sup>2"
    by (simp add: power2_eq_square)
  with a have "(real (isqrt n))\<^sup>2 \<le> real n" by (simp only:)
  then have lo: "real (isqrt n) \<le> sqrt (real n)" by (rule real_le_rsqrt)
  have "real ((isqrt n + 1) * (isqrt n + 1)) = (real (isqrt n) + 1)\<^sup>2"
    by (simp add: power2_eq_square algebra_simps)
  with b have "real n < (real (isqrt n) + 1)\<^sup>2" by (simp only:)
  then have "sqrt (real n) < real (isqrt n) + 1" by (intro real_less_lsqrt) simp_all
  with lo show ?thesis ..
qed

lemma fsqrt_Finite_value:
  assumes "0 < m"
  shows "\<exists>r er st. 0 < r \<and> 53 < bitlen r
           \<and> fsqrt (Finite False m e) = round_double False r er st
           \<and> real r * 2 powi er \<le> sqrt (valof (Finite False m e))
           \<and> sqrt (valof (Finite False m e)) < (real r + 1) * 2 powi er
           \<and> (\<not> st \<longrightarrow> sqrt (valof (Finite False m e)) = real r * 2 powi er)"
proof -
  define k :: nat where "k = (if even e then 110 else 111)"
  define n where "n = m * 2 ^ k"
  define r where "r = isqrt n"
  define er where "er = (e - int k) div 2"
  have ev: "even (e - int k)" by (simp add: k_def)
  then have e2: "e - int k = 2 * er" unfolding er_def by simp
  have fs: "fsqrt (Finite False m e) = round_double False r er (r * r \<noteq> n)"
    using assms by (simp add: Let_def k_def n_def r_def er_def)
  have n110: "2 ^ 110 \<le> n"
  proof -
    have "(2::nat) ^ 110 \<le> 2 ^ k" by (rule power_increasing) (simp_all add: k_def)
    also have "\<dots> \<le> m * 2 ^ k" using assms by simp
    finally show ?thesis unfolding n_def .
  qed
  have r55: "2 ^ 55 \<le> r"
  proof (rule ccontr)
    assume "\<not> 2 ^ 55 \<le> r"
    then have "r < 2 ^ 55" by (rule iffD1 [OF not_le])
    then have "Suc r \<le> 2 ^ 55" by (rule Suc_leI)
    then have le: "r + 1 \<le> 2 ^ 55" by (simp only: Suc_eq_plus1)
    have "(r + 1) * (r + 1) \<le> 2 ^ 55 * 2 ^ 55" by (intro mult_mono le) simp_all
    also have "\<dots> = (2::nat) ^ 110" by simp
    finally show False using isqrt_bounds [of n] n110 unfolding r_def by linarith
  qed
  then have rpos: "0 < r" by (simp add: less_le_trans [of 0 "2 ^ 55"])
  have "\<not> r < 2 ^ 53"
  proof -
    have "(2::nat) ^ 53 \<le> 2 ^ 55" by (rule power_increasing) simp_all
    then show ?thesis using r55 by linarith
  qed
  then have bl: "53 < bitlen r" using bitlen_le_iff [of r 53] by simp
  have val: "valof (Finite False m e) = real n * (2 powi er)\<^sup>2"
  proof -
    have "(2::real) powi e = 2 powi (2 * er) * 2 ^ k"
      using powi_shift [of "2 * er" k] e2 by (simp add: algebra_simps)
    moreover have "(2::real) powi (2 * er) = (2 powi er)\<^sup>2"
    proof -
      have "(2::real) powi (er + er) = 2 powi er * 2 powi er"
        by (rule power_int_add) simp
      moreover have "2 * er = er + er" by simp
      ultimately show ?thesis by (simp only: power2_eq_square)
    qed
    ultimately have "(2::real) powi e = (2 powi er)\<^sup>2 * 2 ^ k" by (simp only:)
    then show ?thesis by (simp add: valof_Finite n_def)
  qed
  have sq: "sqrt (valof (Finite False m e)) = sqrt (real n) * 2 powi er"
    unfolding val by (simp add: real_sqrt_mult)
  have lo: "real r * 2 powi er \<le> sqrt (valof (Finite False m e))"
    unfolding sq r_def using isqrt_real [of n] by (intro mult_right_mono) simp_all
  have hi: "sqrt (valof (Finite False m e)) < (real r + 1) * 2 powi er"
    unfolding sq r_def using isqrt_real [of n] by (intro mult_strict_right_mono) simp_all
  have exact: "sqrt (valof (Finite False m e)) = real r * 2 powi er" if "\<not> r * r \<noteq> n"
  proof -
    from that have "n = r * r" by simp
    then have "real n = real (r * r)" by (rule arg_cong)
    then have "real n = real r * real r" by simp
    then have "sqrt (real n) = real r" by simp
    then show ?thesis unfolding sq by simp
  qed
  show ?thesis using rpos bl fs lo hi exact by blast
qed

lemma fsqrt_lower:
  assumes a: "is_finite (Finite False ma ea)"
    and sq: "(valof (Finite False ma ea))\<^sup>2 \<le> valof (Finite False m e)"
  shows "fsqrt (Finite False m e) = Infinity False
         \<or> (\<exists>q f. fsqrt (Finite False m e) = Finite False q f
                \<and> valof (Finite False ma ea) \<le> valof (Finite False q f))"
proof (cases "m = 0")
  case True
  then have "(valof (Finite False ma ea))\<^sup>2 \<le> 0" using sq by (simp add: valof_Finite)
  then have "valof (Finite False ma ea) = 0" by simp
  then show ?thesis using True by (simp add: valof_Finite)
next
  case False
  then have "0 < m" by simp
  from fsqrt_Finite_value [OF this, of e]
  obtain r er st where r: "0 < r" and bl: "53 < bitlen r"
    and fs: "fsqrt (Finite False m e) = round_double False r er st"
    and hi: "sqrt (valof (Finite False m e)) < (real r + 1) * 2 powi er"
    by blast
  have "valof (Finite False ma ea) \<le> sqrt (valof (Finite False m e))"
    using sq by (rule real_le_rsqrt)
  then have "real ma * 2 powi ea < (real r + 1) * 2 powi er"
    using hi by (simp add: valof_Finite)
  then show ?thesis
    unfolding fs using round_double_lower [OF r a, of er st] bl
    by (simp add: valof_Finite)
qed

lemma fsqrt_upper:
  assumes a: "is_finite (Finite False ma ea)"
    and sq: "valof (Finite False m e) \<le> (valof (Finite False ma ea))\<^sup>2"
  shows "\<exists>q f. fsqrt (Finite False m e) = Finite False q f
           \<and> valof (Finite False q f) \<le> valof (Finite False ma ea)"
proof (cases "m = 0")
  case True
  then show ?thesis by (simp add: valof_Finite)
next
  case False
  then have "0 < m" by simp
  from fsqrt_Finite_value [OF this, of e]
  obtain r er st where r: "0 < r"
    and fs: "fsqrt (Finite False m e) = round_double False r er st"
    and lo: "real r * 2 powi er \<le> sqrt (valof (Finite False m e))"
    by blast
  have "sqrt (valof (Finite False m e)) \<le> sqrt ((valof (Finite False ma ea))\<^sup>2)"
    using sq by (rule real_sqrt_le_mono)
  also have "\<dots> = valof (Finite False ma ea)"
    using valof_nonneg [of ma ea] by simp
  finally have "real r * 2 powi er \<le> real ma * 2 powi ea"
    using lo by (simp add: valof_Finite)
  then show ?thesis
    unfolding fs using round_double_upper [OF r a, of er st]
    by (simp add: valof_Finite)
qed


section \<open>Rounding is to nearest\<close>

text \<open>
  \<open>round_double\<close> returns a double within half a unit in the last place of the exact value
  (\<open>round_double_error\<close>). So an exact value below the midpoint between a double \<open>a\<close> and
  its successor is rounded to \<open>a\<close> at most (\<open>round_double_down\<close>), and one above the
  midpoint between \<open>a\<close> and its predecessor is rounded to \<open>a\<close> at least
  (\<open>round_double_up\<close>). Consequences: a sum absorbs an addend below half a unit in the last
  place, and the square root of a rounded square \<open>x * x\<close> is \<open>\<bar>x\<bar>\<close> again, unless the square
  overflows or underflows.
\<close>

lemma round_double_inexact:
  assumes m: "0 < m" and e': "e' = max emin (e + int (bitlen m) - 53)" and lt: "e < e'"
    and sh: "sh = nat (e' - e)"
  shows "round_double s m e st
           = pack_double s
               (if m mod 2 ^ sh > 2 ^ (sh - 1)
                   \<or> (m mod 2 ^ sh = 2 ^ (sh - 1) \<and> (st \<or> (m div 2 ^ sh) mod 2 = 1))
                then m div 2 ^ sh + 1 else m div 2 ^ sh) e'"
  using m lt
  unfolding round_double_def pack_double_def Let_def e' [symmetric] sh [symmetric]
  by simp

lemma round_double_magnitude:
  assumes m: "0 < m" and e': "e' = max emin (e + int (bitlen m) - 53)"
  shows "(real m + 1) * 2 powi e \<le> 2 powi (e' + 53)"
    and "emin \<le> e + int (bitlen m) - 53 \<Longrightarrow> 2 powi (e' + 52) \<le> real m * 2 powi e"
proof -
  have "m + 1 \<le> 2 ^ bitlen m" using bitlen_upper [of m] by simp
  then have "real (m + 1) \<le> real (2 ^ bitlen m)" by (rule iffD2 [OF of_nat_le_iff])
  then have "real m + 1 \<le> 2 ^ bitlen m" by simp
  then have "(real m + 1) * 2 powi e \<le> 2 ^ bitlen m * 2 powi e"
    by (rule mult_right_mono) simp
  also have "\<dots> = 2 powi (e + int (bitlen m))"
    using powi_shift [of e "bitlen m"] by simp
  also have "\<dots> \<le> 2 powi (e' + 53)"
    by (rule powi_mono) (simp add: e')
  finally show "(real m + 1) * 2 powi e \<le> 2 powi (e' + 53)" .
next
  assume n: "emin \<le> e + int (bitlen m) - 53"
  then have eq: "e' = e + int (bitlen m) - 53" by (simp add: e')
  have pos: "0 < bitlen m" using m by (rule bitlen_pos)
  have "e' + 52 = e + int (bitlen m - 1)" using eq pos by simp
  then have "(2::real) powi (e' + 52) = 2 powi e * 2 ^ (bitlen m - 1)"
    using powi_shift [of e "bitlen m - 1"] by simp
  also have "\<dots> \<le> 2 powi e * real m"
  proof (rule mult_left_mono)
    have "real (2 ^ (bitlen m - 1)) \<le> real m"
      using bitlen_lower [OF m] by (rule iffD2 [OF of_nat_le_iff])
    then show "(2::real) ^ (bitlen m - 1) \<le> real m" by simp
  qed simp
  finally show "2 powi (e' + 52) \<le> real m * 2 powi e" by (simp add: mult.commute)
qed

lemma round_double_error:
  assumes m: "0 < m"
    and lo: "real m * 2 powi e \<le> V" and hi: "V < (real m + 1) * 2 powi e"
    and ex: "\<not> st \<Longrightarrow> V = real m * 2 powi e"
    and st: "st \<Longrightarrow> 53 < bitlen m"
  shows "\<exists>e' q'. e' = max emin (e + int (bitlen m) - 53) \<and> q' \<le> 2 ^ 53
           \<and> (emin < e' \<longrightarrow> 2 ^ 52 \<le> q')
           \<and> round_double False m e st = pack_double False q' e'
           \<and> \<bar>real q' * 2 powi e' - V\<bar> \<le> 2 powi (e' - 1)
           \<and> (e' \<le> e \<longrightarrow> real q' * 2 powi e' = V)"
proof -
  define e' where "e' = max emin (e + int (bitlen m) - 53)"
  have ge: "e + int (bitlen m) - 53 \<le> e'" by (simp add: e'_def)
  have norm: "e' = e + int (bitlen m) - 53" if "emin < e'"
    using that by (simp add: e'_def max_def split: if_splits)
  show ?thesis
  proof (cases "e' \<le> e")
    case True
    define q' where "q' = m * 2 ^ nat (e - e')"
    from round_double_shape [OF m, of e False st] True
    have rd: "round_double False m e st = pack_double False q' e'"
      unfolding e'_def q'_def by auto
    have bl: "bitlen q' = bitlen m + nat (e - e')"
      unfolding q'_def using m by (rule bitlen_shift)
    have b53: "bitlen m + nat (e - e') \<le> 53" using ge True by linarith
    then have "q' < 2 ^ 53" using bl bitlen_le_iff by metis
    then have a: "q' \<le> 2 ^ 53" by simp
    have b: "2 ^ 52 \<le> q'" if "emin < e'"
    proof -
      have "bitlen m + nat (e - e') = 53" using norm [OF that] True by linarith
      then have "\<not> bitlen q' \<le> 52" using bl by simp
      then show ?thesis using bitlen_le_iff [of q' 52] by simp
    qed
    have "bitlen m \<le> 53" using b53 by simp
    then have "\<not> st" using st by auto
    then have V: "V = real m * 2 powi e" by (rule ex)
    have val: "real q' * 2 powi e' = V"
      unfolding V q'_def by (rule on_grid [OF True, symmetric])
    have "\<bar>real q' * 2 powi e' - V\<bar> \<le> 2 powi (e' - 1)"
      unfolding val by simp
    then show ?thesis using a b rd val e'_def by blast
  next
    case False
    then have lt: "e < e'" by simp
    define sh where "sh = nat (e' - e)"
    define q where "q = m div 2 ^ sh"
    define r where "r = m mod 2 ^ sh"
    define half :: nat where "half = 2 ^ (sh - 1)"
    define up where "up \<longleftrightarrow> r > half \<or> (r = half \<and> (st \<or> q mod 2 = 1))"
    define q' where "q' = (if up then q + 1 else q)"
    have sh1: "1 \<le> sh" using lt by (simp add: sh_def)
    have rd: "round_double False m e st = pack_double False q' e'"
      using round_double_inexact [OF m e'_def lt sh_def, of False st]
      unfolding q'_def up_def half_def r_def q_def by simp
    have blq: "bitlen q = bitlen m - sh" unfolding q_def by (rule bitlen_div)
    have "int (bitlen m) - int sh \<le> 53" using ge lt by (simp add: sh_def)
    then have "bitlen q \<le> 53" using blq by linarith
    then have q53: "q < 2 ^ 53" using bitlen_le_iff by blast
    have q52: "2 ^ 52 \<le> q" if "emin < e'"
    proof -
      have "int (bitlen m) - int sh = 53" using norm [OF that] lt by (simp add: sh_def)
      then have "bitlen q = 53" using blq by linarith
      then have "\<not> bitlen q \<le> 52" by simp
      then show ?thesis using bitlen_le_iff [of q 52] by simp
    qed
    have a: "q' \<le> 2 ^ 53" using q53 by (simp add: q'_def)
    have b: "2 ^ 52 \<le> q'" if "emin < e'" using q52 [OF that] by (simp add: q'_def)
    define u :: real where "u = 2 powi e"
    define t where "t = V / u - real m"
    have u: "0 < u" by (simp add: u_def)
    have V: "V = (real m + t) * u" using u by (simp add: t_def field_simps)
    have t0: "0 \<le> t"
    proof -
      have "real m * u \<le> V" using lo by (simp add: u_def)
      then have "real m * u \<le> (real m + t) * u" by (simp only: V [symmetric])
      then have "real m \<le> real m + t" using u by (simp only: mult_le_cancel_right_pos)
      then show ?thesis by simp
    qed
    have t1: "t < 1"
    proof -
      have "V < (real m + 1) * u" using hi by (simp add: u_def)
      then have "(real m + t) * u < (real m + 1) * u" by (simp only: V [symmetric])
      then have "real m + t < real m + 1" using u by (simp only: mult_less_cancel_right_pos)
      then show ?thesis by simp
    qed
    have tst: "t = 0" if "\<not> st"
      using ex [OF that] u by (simp add: t_def u_def)
    have two_half: "(2::nat) ^ sh = 2 * half"
    proof -
      have "sh = Suc (sh - 1)" using sh1 by simp
      then have "(2::nat) ^ sh = 2 ^ Suc (sh - 1)" by (rule arg_cong)
      then show ?thesis by (simp add: half_def)
    qed
    have half1: "1 \<le> half" by (simp add: half_def)
    have m_eq: "m = q * (2 * half) + r"
      unfolding two_half [symmetric] q_def r_def by (rule div_mult_mod_eq [symmetric])
    have r_lt: "r < 2 * half"
      unfolding two_half [symmetric] r_def by simp
    have e'u: "2 powi e' = u * (2 * real half)"
    proof -
      have "(2::real) powi e' = 2 powi e * 2 ^ sh"
        unfolding sh_def using powi_split [of e e'] lt by simp
      also have "(2::real) ^ sh = real (2 ^ sh)" by simp
      also have "\<dots> = 2 * real half" unfolding two_half by simp
      finally show ?thesis by (simp add: u_def)
    qed
    have e'1u: "2 powi (e' - 1) = u * real half"
    proof -
      have le: "e \<le> e' - 1" using lt by simp
      have "nat (e' - 1 - e) = sh - 1" by (simp add: sh_def)
      then have "(2::real) powi (e' - 1) = 2 powi e * 2 ^ (sh - 1)"
        using powi_split [OF le] by simp
      then show ?thesis by (simp add: u_def half_def)
    qed
    define M where "M = real m"
    define Q where "Q = real q"
    define R where "R = real r"
    define H where "H = real half"
    have MQR: "M = Q * (2 * H) + R"
      unfolding M_def Q_def R_def H_def using m_eq
      by (metis of_nat_add of_nat_mult of_nat_numeral)
    have H1: "1 \<le> H" unfolding H_def using half1 by simp
    have R2H: "R < 2 * H"
    proof -
      have "real r < real (2 * half)" using r_lt by (rule iffD2 [OF of_nat_less_iff])
      then show ?thesis by (simp add: R_def H_def)
    qed
    have R0: "0 \<le> R" by (simp add: R_def)
    have diff: "real q' * 2 powi e' - V = (real q' * (2 * H) - M - t) * u"
      unfolding e'u V M_def H_def by (simp add: algebra_simps)
    have core: "\<bar>real q' * (2 * H) - M - t\<bar> \<le> H"
    proof (cases up)
      case True
      then have q'1: "real q' = Q + 1" by (simp add: q'_def Q_def)
      have RH: "H \<le> R + t"
      proof -
        from True have "r > half \<or> r = half" unfolding up_def by auto
        then have "half \<le> r" by auto
        then have "real half \<le> real r" by (rule iffD2 [OF of_nat_le_iff])
        then show ?thesis using t0 by (simp add: R_def H_def)
      qed
      have "real q' * (2 * H) - M - t = 2 * H - R - t"
        unfolding q'1 MQR by (simp add: algebra_simps)
      then show ?thesis using RH R2H R0 t0 t1 H1 by linarith
    next
      case False
      then have q'0: "real q' = Q" by (simp add: q'_def Q_def)
      have RH: "R + t \<le> H"
      proof (cases "r = half")
        case True
        with False have "\<not> st" unfolding up_def by auto
        then have "t = 0" by (rule tst)
        then show ?thesis using True by (simp add: R_def H_def)
      next
        case ne: False
        with False have "r < half" unfolding up_def by auto
        then have "r + 1 \<le> half" by simp
        then have "real (r + 1) \<le> real half" by (rule iffD2 [OF of_nat_le_iff])
        then have "R + 1 \<le> H" by (simp add: R_def H_def)
        then show ?thesis using t1 by linarith
      qed
      have "real q' * (2 * H) - M - t = - (R + t)"
        unfolding q'0 MQR by (simp add: algebra_simps)
      then show ?thesis using RH R0 t0 by linarith
    qed
    have "\<bar>real q' * 2 powi e' - V\<bar> = \<bar>real q' * (2 * H) - M - t\<bar> * u"
      unfolding diff using u by (simp add: abs_mult)
    also have "\<dots> \<le> H * u" using core u by (intro mult_right_mono) simp_all
    also have "\<dots> = 2 powi (e' - 1)" unfolding e'1u H_def by simp
    finally have err: "\<bar>real q' * 2 powi e' - V\<bar> \<le> 2 powi (e' - 1)" .
    show ?thesis using a b rd err lt e'_def by (intro exI [of _ e'] exI [of _ q']) auto
  qed
qed

lemma powi_less_imp: "(2::real) powi a < 2 powi b \<Longrightarrow> a < b"
  using powi_mono [of b a] by (cases "a < b") simp_all

lemma powi_53: "(2::real) powi (x + 53) = 2 ^ 53 * 2 powi x"
  using powi_shift [of x 53] by simp

lemma powi_52: "(2::real) powi (x + 52) = 2 ^ 52 * 2 powi x"
  using powi_shift [of x 52] by simp

lemma powi_half: "(2::real) powi (x - 1) = 2 powi x / 2"
  by (simp add: power_int_diff)

lemma real_below_pow53: "ma < 2 ^ 53 \<Longrightarrow> real ma + 1 \<le> 2 ^ 53"
proof -
  assume "ma < 2 ^ 53"
  then have "ma + 1 \<le> 2 ^ 53" by simp
  then have "real (ma + 1) \<le> real (2 ^ 53)" by (rule iffD2 [OF of_nat_le_iff])
  then show ?thesis by simp
qed

lemma pack_double_le:
  assumes a: "is_finite (Finite False ma ea)"
    and q52: "emin < e' \<longrightarrow> 2 ^ 52 \<le> q'"
    and key: "real q' * 2 powi e' \<le> real ma * 2 powi ea"
  shows "\<exists>Q E. pack_double False q' e' = Finite False Q E
           \<and> real Q * 2 powi E = real q' * 2 powi e'"
proof -
  have top: "real ma * 2 powi ea < 2 ^ 53 * 2 powi emax"
    using a by (rule finite_below_top)
  have fin: "\<exists>Q E. pack_double False q' e' = Finite False Q E"
  proof (cases "q' = 2 ^ 53")
    case True
    have "(2::real) ^ 53 * 2 powi e' < 2 ^ 53 * 2 powi emax"
      using key top True by simp
    then have "(2::real) powi e' < 2 powi emax" by simp
    then have "e' < emax" by (rule powi_less_imp)
    then show ?thesis using True by (simp add: pack_double_def)
  next
    case False
    have "e' \<le> emax"
    proof (rule ccontr)
      assume "\<not> e' \<le> emax"
      then have big: "emax + 1 \<le> e'" by simp
      have "emin < e'" using big by (simp add: emin_def emax_def)
      then have "2 ^ 52 \<le> q'" using q52 by blast
      then have "(2::real) ^ 52 * 2 powi e' \<le> real q' * 2 powi e'"
        by (rule scale_ge_pow52)
      moreover have "(2::real) ^ 52 * 2 powi (emax + 1) \<le> 2 ^ 52 * 2 powi e'"
        using powi_mono [OF big] by simp
      moreover have "(2::real) ^ 52 * 2 powi (emax + 1) = 2 ^ 53 * 2 powi emax"
        by (simp add: power_int_add)
      ultimately show False using key top by linarith
    qed
    then show ?thesis using False by (simp add: pack_double_def)
  qed
  from pack_double_value [of False q' e'] fin show ?thesis by auto
qed

lemma round_double_down:
  assumes m: "0 < m"
    and lo: "real m * 2 powi e \<le> V" and hi: "V < (real m + 1) * 2 powi e"
    and ex: "\<not> st \<Longrightarrow> V = real m * 2 powi e"
    and st: "st \<Longrightarrow> 53 < bitlen m"
    and a: "is_finite (Finite False ma ea)"
    and below: "V < (real ma + 1 / 2) * 2 powi ea"
  shows "\<exists>q f. round_double False m e st = Finite False q f
           \<and> real q * 2 powi f \<le> real ma * 2 powi ea"
proof -
  from a have ma: "ma < 2 ^ 53" and ea: "emin \<le> ea" and sub: "ma < 2 ^ 52 \<longrightarrow> ea = emin"
    by (simp_all add: is_finite_def)
  from round_double_error [OF m lo hi ex st]
  obtain e' q' where e': "e' = max emin (e + int (bitlen m) - 53)" and q53: "q' \<le> 2 ^ 53"
    and q52: "emin < e' \<longrightarrow> 2 ^ 52 \<le> q'"
    and rd: "round_double False m e st = pack_double False q' e'"
    and err: "\<bar>real q' * 2 powi e' - V\<bar> \<le> 2 powi (e' - 1)"
    by blast
  define X :: real where "X = 2 powi ea"
  define P where "P = real ma * X"
  have X: "0 < X" by (simp add: X_def)
  have below': "V < P + X / 2" using below by (simp add: P_def X_def algebra_simps)
  have lo_e': "emin \<le> e'" by (simp add: e')
  have e'_le: "e' \<le> ea"
  proof (cases "emin < e'")
    case True
    then have "emin \<le> e + int (bitlen m) - 53" using e' by (simp add: max_def split: if_splits)
    from round_double_magnitude(2) [OF m e' this]
    have "2 powi (e' + 52) \<le> real m * 2 powi e" .
    also note lo
    also note below
    also have "(real ma + 1 / 2) * 2 powi ea < 2 ^ 53 * 2 powi ea"
      using real_below_pow53 [OF ma] by (intro mult_strict_right_mono) simp_all
    also have "\<dots> = 2 powi (ea + 53)" by (rule powi_53 [symmetric])
    finally have "(2::real) powi (e' + 52) < 2 powi (ea + 53)" .
    then have "e' + 52 < ea + 53" by (rule powi_less_imp)
    then show ?thesis by simp
  next
    case False
    then show ?thesis using ea lo_e' by simp
  qed
  have key: "real q' * 2 powi e' \<le> real ma * 2 powi ea"
  proof (cases "e' = ea")
    case True
    have "q' \<le> ma"
    proof (rule ccontr)
      assume "\<not> q' \<le> ma"
      then have "ma + 1 \<le> q'" by simp
      then have "real (ma + 1) \<le> real q'" by (rule iffD2 [OF of_nat_le_iff])
      then have "real (ma + 1) * X \<le> real q' * X" using X by (intro mult_right_mono) simp_all
      then have 1: "P + X \<le> real q' * X" by (simp add: P_def algebra_simps)
      have "real q' * X - V \<le> 2 powi (ea - 1)" using err True by (simp add: X_def)
      then have 2: "real q' * X - V \<le> X / 2" by (simp add: powi_half X_def)
      from 1 2 below' X show False by linarith
    qed
    then have "real q' \<le> real ma" by (rule iffD2 [OF of_nat_le_iff])
    then show ?thesis unfolding True by (intro mult_right_mono) simp_all
  next
    case False
    then have lt: "e' < ea" using e'_le by simp
    then have "emin < ea" using lo_e' by simp
    then have m52: "2 ^ 52 \<le> ma" using sub by fastforce
    have "real q' \<le> real (2 ^ 53)" using q53 by (rule iffD2 [OF of_nat_le_iff])
    then have "real q' \<le> 2 ^ 53" by simp
    then have "real q' * 2 powi e' \<le> 2 ^ 53 * 2 powi e'" by (intro mult_right_mono) simp_all
    also have "\<dots> = 2 powi (e' + 53)" by (rule powi_53 [symmetric])
    also have "\<dots> \<le> 2 powi (ea + 52)" by (rule powi_mono) (use lt in simp)
    also have "\<dots> = 2 ^ 52 * 2 powi ea" by (rule powi_52)
    also have "\<dots> \<le> real ma * 2 powi ea" using m52 by (rule scale_ge_pow52)
    finally show ?thesis .
  qed
  from pack_double_le [OF a q52 key] show ?thesis unfolding rd using key by auto
qed

lemma round_double_up:
  assumes m: "0 < m"
    and lo: "real m * 2 powi e \<le> V" and hi: "V < (real m + 1) * 2 powi e"
    and ex: "\<not> st \<Longrightarrow> V = real m * 2 powi e"
    and st: "st \<Longrightarrow> 53 < bitlen m"
    and a: "is_finite (Finite False ma ea)"
    and nb: "2 ^ 52 < ma \<or> ea = emin"
    and above: "(real ma - 1 / 2) * 2 powi ea < V"
  shows "round_double False m e st = Infinity False
         \<or> (\<exists>q f. round_double False m e st = Finite False q f
                \<and> real ma * 2 powi ea \<le> real q * 2 powi f)"
proof (cases "real ma * 2 powi ea \<le> V")
  case True
  have "real ma * 2 powi ea \<le> real m * 2 powi e
          \<or> (real ma * 2 powi ea < (real m + 1) * 2 powi e \<and> 53 < bitlen m)"
  proof (cases st)
    case True
    then show ?thesis using st \<open>real ma * 2 powi ea \<le> V\<close> hi by auto
  next
    case False
    then show ?thesis using ex \<open>real ma * 2 powi ea \<le> V\<close> by auto
  qed
  with m a show ?thesis by (rule round_double_lower)
next
  case False
  then have Va: "V < real ma * 2 powi ea" by simp
  from a have ma: "ma < 2 ^ 53" and ea: "emin \<le> ea" by (simp_all add: is_finite_def)
  from round_double_error [OF m lo hi ex st]
  obtain e' q' where e': "e' = max emin (e + int (bitlen m) - 53)" and q53: "q' \<le> 2 ^ 53"
    and q52: "emin < e' \<longrightarrow> 2 ^ 52 \<le> q'"
    and rd: "round_double False m e st = pack_double False q' e'"
    and err: "\<bar>real q' * 2 powi e' - V\<bar> \<le> 2 powi (e' - 1)"
    by blast
  define X :: real where "X = 2 powi ea"
  define P where "P = real ma * X"
  have X: "0 < X" by (simp add: X_def)
  have above': "P - X / 2 < V" using above by (simp add: P_def X_def algebra_simps)
  have lo_e': "emin \<le> e'" by (simp add: e')
  have ma_lt: "real ma * 2 powi ea < 2 powi (ea + 53)"
  proof -
    have "real ma < 2 ^ 53" using real_below_pow53 [OF ma] by simp
    then have "real ma * 2 powi ea < 2 ^ 53 * 2 powi ea"
      by (intro mult_strict_right_mono) simp_all
    then show ?thesis by (simp only: powi_53)
  qed
  have e'_le: "e' \<le> ea"
  proof (cases "emin < e'")
    case True
    then have "emin \<le> e + int (bitlen m) - 53" using e' by (simp add: max_def split: if_splits)
    from round_double_magnitude(2) [OF m e' this]
    have "2 powi (e' + 52) \<le> real m * 2 powi e" .
    also note lo
    also note Va
    also note ma_lt
    finally have "(2::real) powi (e' + 52) < 2 powi (ea + 53)" .
    then have "e' + 52 < ea + 53" by (rule powi_less_imp)
    then show ?thesis by simp
  next
    case False
    then show ?thesis using ea lo_e' by simp
  qed
  have eq: "e' = ea"
  proof (rule ccontr)
    assume "e' \<noteq> ea"
    then have lt: "e' < ea" using e'_le by simp
    then have "emin < ea" using lo_e' by simp
    then have "2 ^ 52 < ma" using nb by simp
    then have "2 ^ 52 + 1 \<le> ma" by simp
    then have "real (2 ^ 52 + 1) \<le> real ma" by (rule iffD2 [OF of_nat_le_iff])
    then have "2 ^ 52 + 1 \<le> real ma" by simp
    then have "(2 ^ 52 + 1) * X \<le> real ma * X" using X by (intro mult_right_mono) simp_all
    then have "2 ^ 52 * X + X \<le> P" by (simp add: P_def algebra_simps)
    then have "2 ^ 52 * X < V" using above' X by linarith
    moreover have "V < 2 powi (e' + 53)"
      using hi round_double_magnitude(1) [OF m e'] by simp
    moreover have "(2::real) powi (e' + 53) \<le> 2 powi (ea + 52)"
      by (rule powi_mono) (use lt in simp)
    moreover have "(2::real) powi (ea + 52) = 2 ^ 52 * X" unfolding X_def by (rule powi_52)
    ultimately show False by linarith
  qed
  have "ma \<le> q'"
  proof (rule ccontr)
    assume "\<not> ma \<le> q'"
    then have "q' + 1 \<le> ma" by simp
    then have "real (q' + 1) \<le> real ma" by (rule iffD2 [OF of_nat_le_iff])
    then have "real (q' + 1) * X \<le> real ma * X" using X by (intro mult_right_mono) simp_all
    then have 1: "real q' * X + X \<le> P" by (simp add: P_def algebra_simps)
    have "V - real q' * X \<le> 2 powi (ea - 1)" using err eq by (simp add: X_def)
    then have 2: "V - real q' * X \<le> X / 2" by (simp add: powi_half X_def)
    from 1 2 above' X show False by linarith
  qed
  then have "real ma \<le> real q'" by (rule iffD2 [OF of_nat_le_iff])
  then have key: "real ma * 2 powi ea \<le> real q' * 2 powi e'"
    unfolding eq by (intro mult_right_mono) simp_all
  from pack_double_value [of False q' e'] show ?thesis
    unfolding rd using key by auto
qed

lemma valof_inj_le:
  assumes x: "is_finite (Finite False m e)" and y: "is_finite (Finite False n f)"
    and le: "e \<le> f" and eq: "real m * 2 powi e = real n * 2 powi f"
  shows "m = n \<and> e = f"
proof -
  from x have m53: "m < 2 ^ 53" by (simp add: is_finite_def)
  from y have sub: "n < 2 ^ 52 \<longrightarrow> f = emin" by (simp add: is_finite_def)
  from x have lo: "emin \<le> e" by (simp add: is_finite_def)
  have "real m * 2 powi e = real (n * 2 ^ nat (f - e)) * 2 powi e"
    unfolding eq by (rule on_grid [OF le])
  then have "real m = real (n * 2 ^ nat (f - e))" by simp
  then have mn: "m = n * 2 ^ nat (f - e)" by (rule iffD1 [OF of_nat_eq_iff])
  have "e = f"
  proof (rule ccontr)
    assume "e \<noteq> f"
    then have lt: "e < f" using le by simp
    then have "emin < f" using lo by simp
    then have n52: "2 ^ 52 \<le> n" using sub by fastforce
    have "(2::nat) ^ 1 \<le> 2 ^ nat (f - e)" by (rule power_increasing) (use lt in simp_all)
    then have "2 ^ 52 * 2 ^ 1 \<le> n * 2 ^ nat (f - e)" using n52 by (rule mult_le_mono [rotated])
    then show False using mn m53 by simp
  qed
  then show ?thesis using mn by simp
qed

lemma valof_inj:
  assumes x: "is_finite (Finite False m e)" and y: "is_finite (Finite False n f)"
    and eq: "real m * 2 powi e = real n * 2 powi f"
  shows "Finite False m e = Finite False n f"
proof (cases "e \<le> f")
  case True
  from valof_inj_le [OF x y True eq] show ?thesis by simp
next
  case False
  then have "f \<le> e" by simp
  from valof_inj_le [OF y x this eq [symmetric]] show ?thesis by simp
qed

lemma pack_finite_exp: "pack_double s q e = Finite t Q E \<Longrightarrow> e \<le> emax"
  by (simp add: pack_double_def split: if_splits)

lemma fsqrt_down:
  assumes a: "is_finite (Finite False ma ea)"
    and below: "sqrt (valof (Finite False m e)) < (real ma + 1 / 2) * 2 powi ea"
  shows "\<exists>q f. fsqrt (Finite False m e) = Finite False q f
           \<and> real q * 2 powi f \<le> real ma * 2 powi ea"
proof (cases "m = 0")
  case True
  then show ?thesis by simp
next
  case False
  then have "0 < m" by simp
  from fsqrt_Finite_value [OF this, of e]
  obtain r er st where r: "0 < r" and bl: "53 < bitlen r"
    and fs: "fsqrt (Finite False m e) = round_double False r er st"
    and lo: "real r * 2 powi er \<le> sqrt (valof (Finite False m e))"
    and hi: "sqrt (valof (Finite False m e)) < (real r + 1) * 2 powi er"
    and ex: "\<not> st \<longrightarrow> sqrt (valof (Finite False m e)) = real r * 2 powi er"
    by blast
  show ?thesis
    unfolding fs
    by (rule round_double_down [OF r lo hi _ _ a below]) (use ex bl in simp_all)
qed

lemma fsqrt_up:
  assumes a: "is_finite (Finite False ma ea)" and nb: "2 ^ 52 < ma \<or> ea = emin"
    and above: "(real ma - 1 / 2) * 2 powi ea < sqrt (valof (Finite False m e))"
  shows "fsqrt (Finite False m e) = Infinity False
         \<or> (\<exists>q f. fsqrt (Finite False m e) = Finite False q f
                \<and> real ma * 2 powi ea \<le> real q * 2 powi f)"
proof (cases "m = 0")
  case True
  then have "(real ma - 1 / 2) * 2 powi ea < 0" using above by (simp add: valof_Finite)
  have "real ma - 1 / 2 < 0"
  proof (rule ccontr)
    assume "\<not> real ma - 1 / 2 < 0"
    then have "0 \<le> real ma - 1 / 2" by simp
    then have "0 \<le> (real ma - 1 / 2) * 2 powi ea" by (intro mult_nonneg_nonneg) simp_all
    with \<open>(real ma - 1 / 2) * 2 powi ea < 0\<close> show False by simp
  qed
  then have "ma = 0" by linarith
  then show ?thesis using True by simp
next
  case False
  then have "0 < m" by simp
  from fsqrt_Finite_value [OF this, of e]
  obtain r er st where r: "0 < r" and bl: "53 < bitlen r"
    and fs: "fsqrt (Finite False m e) = round_double False r er st"
    and lo: "real r * 2 powi er \<le> sqrt (valof (Finite False m e))"
    and hi: "sqrt (valof (Finite False m e)) < (real r + 1) * 2 powi er"
    and ex: "\<not> st \<longrightarrow> sqrt (valof (Finite False m e)) = real r * 2 powi er"
    by blast
  show ?thesis
    unfolding fs
    by (rule round_double_up [OF r lo hi _ _ a nb above]) (use ex bl in simp_all)
qed

lemma fadd_comm_Finite:
  "fadd (Finite s m e) (Finite t n f) = fadd (Finite t n f) (Finite s m e)"
  by (simp add: Let_def min.commute add.commute conj_commute)

lemma fadd_absorb:
  assumes x: "is_finite (Finite False m e)" and m: "0 < m"
    and y: "is_finite (Finite False n f)"
    and small: "real n * 2 powi f < 2 powi (e - 1)"
  shows "fadd (Finite False m e) (Finite False n f) = Finite False m e"
proof -
  from fadd_Finite_value [of m e n f] m
  obtain k where k: "0 < k"
    and r: "fadd (Finite False m e) (Finite False n f) = round_double False k (min e f) False"
    and v: "real k * 2 powi (min e f) = valof (Finite False m e) + valof (Finite False n f)"
    by auto
  define V where "V = real k * 2 powi (min e f)"
  have V: "V = real m * 2 powi e + real n * 2 powi f"
    unfolding V_def v by (simp add: valof_Finite)
  have lo: "real k * 2 powi (min e f) \<le> V" by (simp add: V_def)
  have hi: "V < (real k + 1) * 2 powi (min e f)" by (simp add: V_def algebra_simps)
  have below: "V < (real m + 1 / 2) * 2 powi e"
    using small unfolding V by (simp add: powi_half algebra_simps)
  have ex: "\<not> False \<Longrightarrow> V = real k * 2 powi (min e f)" by (rule V_def)
  have nst: "False \<Longrightarrow> 53 < bitlen k" by (erule FalseE)
  from round_double_down [OF k lo hi ex nst x below]
  obtain q g where rq: "round_double False k (min e f) False = Finite False q g"
    and up: "real q * 2 powi g \<le> real m * 2 powi e"
    by blast
  have "real m * 2 powi e \<le> real k * 2 powi (min e f)"
    using V unfolding V_def by simp
  then have "real m * 2 powi e \<le> real q * 2 powi g"
    using round_double_lower [OF k x, of "min e f" False] rq by auto
  with up have eq: "real q * 2 powi g = real m * 2 powi e" by simp
  have "is_finite (Finite False q g)"
    using round_double_valid [of False k "min e f" False] rq by auto
  from valof_inj [OF this x eq] show ?thesis unfolding r rq .
qed

lemma fadd_rel_error:
  assumes x: "is_finite (Finite False m e)" and y: "is_finite (Finite False n f)"
    and r: "fadd (Finite False m e) (Finite False n f) = Finite False q g"
  shows "\<bar>real q * 2 powi g - (real m * 2 powi e + real n * 2 powi f)\<bar>
           \<le> (real m * 2 powi e + real n * 2 powi f) / 2 ^ 53"
proof -
  from fadd_Finite_value [of m e n f]
  show ?thesis
  proof
    assume z: "fadd (Finite False m e) (Finite False n f) = Finite False 0 emin \<and> m = 0 \<and> n = 0"
    from z [unfolded r] have "q = 0" and "m = 0" and "n = 0" by simp_all
    then show ?thesis by simp
  next
    assume "\<exists>k. 0 < k \<and> fadd (Finite False m e) (Finite False n f)
                     = round_double False k (min e f) False
          \<and> real k * 2 powi (min e f)
              = valof (Finite False m e) + valof (Finite False n f)"
    then obtain k where k: "0 < k"
      and rd: "fadd (Finite False m e) (Finite False n f) = round_double False k (min e f) False"
      and v: "real k * 2 powi (min e f) = valof (Finite False m e) + valof (Finite False n f)"
      by blast
    define V where "V = real k * 2 powi (min e f)"
    have V: "V = real m * 2 powi e + real n * 2 powi f"
      unfolding V_def v by (simp add: valof_Finite)
    have V0: "0 \<le> V" by (simp add: V_def)
    have lo: "real k * 2 powi (min e f) \<le> V" by (simp add: V_def)
    have hi: "V < (real k + 1) * 2 powi (min e f)" by (simp add: V_def algebra_simps)
    have ex: "\<not> False \<Longrightarrow> V = real k * 2 powi (min e f)" by (rule V_def)
    have nst: "False \<Longrightarrow> 53 < bitlen k" by (erule FalseE)
    from round_double_error [OF k lo hi ex nst]
    obtain e' q' where e': "e' = max emin (min e f + int (bitlen k) - 53)"
      and rp: "round_double False k (min e f) False = pack_double False q' e'"
      and err: "\<bar>real q' * 2 powi e' - V\<bar> \<le> 2 powi (e' - 1)"
      and exact: "e' \<le> min e f \<longrightarrow> real q' * 2 powi e' = V"
      by blast
    have pk: "pack_double False q' e' = Finite False q g" using r rd rp by simp
    have val: "real q * 2 powi g = real q' * 2 powi e'"
      using pack_double_value [of False q' e'] pk by auto
    from x y have "emin \<le> min e f" by (simp add: is_finite_def)
    show ?thesis
    proof (cases "e' \<le> min e f")
      case True
      then have "real q * 2 powi g = V" using exact val by simp
      then show ?thesis using V0 unfolding V by simp
    next
      case False
      then have "emin < e'" using \<open>emin \<le> min e f\<close> by linarith
      then have "emin \<le> min e f + int (bitlen k) - 53"
        using e' by (simp add: max_def split: if_splits)
      from round_double_magnitude(2) [OF k e' this]
      have "2 powi (e' + 52) \<le> V" unfolding V_def .
      moreover have "(2::real) powi (e' + 52) = 2 ^ 53 * 2 powi (e' - 1)"
      proof -
        have "e' + 52 = (e' - 1) + 53" by simp
        then show ?thesis by (simp only: powi_53)
      qed
      ultimately have "2 powi (e' - 1) \<le> V / 2 ^ 53" by (simp add: field_simps)
      with err show ?thesis unfolding val V [symmetric] by simp
    qed
  qed
qed

lemma in_range_normal:
  assumes c: "is_finite (Finite s m e)" and big: "2 powi (- 511) \<le> real m * 2 powi e"
  shows "2 ^ 52 \<le> m" and "- 563 \<le> e"
proof -
  from c have m53: "m < 2 ^ 53" and sub: "m < 2 ^ 52 \<longrightarrow> e = emin"
    by (simp_all add: is_finite_def)
  show "2 ^ 52 \<le> m"
  proof (rule ccontr)
    assume "\<not> 2 ^ 52 \<le> m"
    then have lt: "m < 2 ^ 52" by simp
    then have e: "e = emin" using sub by simp
    have "real m < real (2 ^ 52)" using lt by (rule iffD2 [OF of_nat_less_iff])
    then have "real m < 2 ^ 52" by simp
    then have "real m * 2 powi e < 2 ^ 52 * 2 powi e"
      by (intro mult_strict_right_mono) simp_all
    also have "\<dots> = 2 powi (e + 52)" by (rule powi_52 [symmetric])
    also have "\<dots> \<le> 2 powi (- 511)" by (rule powi_mono) (simp add: e emin_def)
    finally show False using big by simp
  qed
  have "real m + 1 \<le> 2 ^ 53" using m53 by (rule real_below_pow53)
  then have "real m < 2 ^ 53" by simp
  then have "real m * 2 powi e < 2 ^ 53 * 2 powi e"
    by (intro mult_strict_right_mono) simp_all
  also have "\<dots> = 2 powi (e + 53)" by (rule powi_53 [symmetric])
  finally have "(2::real) powi (- 511) < 2 powi (e + 53)" using big by simp
  then have "- 511 < e + 53" by (rule powi_less_imp)
  then show "- 563 \<le> e" by simp
qed

lemma powi_double: "(2::real) powi (e + e) = (2 powi e)\<^sup>2"
proof -
  have "(2::real) powi (e + e) = 2 powi e * 2 powi e" by (rule power_int_add) simp
  then show ?thesis by (simp only: power2_eq_square)
qed

lemma fmul_self_value:
  assumes c: "is_finite (Finite s m e)" and big: "2 powi (- 511) \<le> real m * 2 powi e"
    and r: "fmul (Finite s m e) (Finite s m e) = Finite False q g"
  shows "\<bar>real q * 2 powi g - (real m * 2 powi e)\<^sup>2\<bar> \<le> (real m * 2 powi e)\<^sup>2 / 2 ^ 53"
    and "\<bar>real q * 2 powi g - (real m * 2 powi e)\<^sup>2\<bar> \<le> (real m - 1) * (2 powi e)\<^sup>2"
    and "m = 2 ^ 52 \<Longrightarrow> real q * 2 powi g = (real m * 2 powi e)\<^sup>2"
    and "is_finite (Finite False q g)"
proof -
  from c have m53: "m < 2 ^ 53" by (simp add: is_finite_def)
  note m52 = in_range_normal(1) [OF c big] and e563 = in_range_normal(2) [OF c big]
  have mpos: "0 < m" using m52 by (simp add: less_le_trans [of 0 "2 ^ 52"])
  define k where "k = m * m"
  define V where "V = real k * 2 powi (e + e)"
  have kpos: "0 < k" using mpos by (simp add: k_def)
  have V: "V = (real m * 2 powi e)\<^sup>2"
    unfolding V_def k_def powi_double by (simp add: power2_eq_square)
  have rd: "round_double False k (e + e) False = Finite False q g"
    using r by (simp add: k_def)
  have k104: "2 ^ 104 \<le> k"
  proof -
    have "2 ^ 52 * 2 ^ 52 \<le> m * m" using m52 by (intro mult_mono) simp_all
    then show ?thesis by (simp add: k_def)
  qed
  have bl105: "105 \<le> bitlen k"
  proof -
    have "\<not> bitlen k \<le> 104" using k104 bitlen_le_iff [of k 104] by simp
    then show ?thesis by simp
  qed
  have n: "emin \<le> e + e + int (bitlen k) - 53"
    using e563 bl105 by (simp add: emin_def)
  have lo: "real k * 2 powi (e + e) \<le> V" by (simp add: V_def)
  have hi: "V < (real k + 1) * 2 powi (e + e)" by (simp add: V_def algebra_simps)
  have ex: "\<not> False \<Longrightarrow> V = real k * 2 powi (e + e)" by (rule V_def)
  have nst: "False \<Longrightarrow> 53 < bitlen k" by (erule FalseE)
  from round_double_error [OF kpos lo hi ex nst]
  obtain e' q' where e': "e' = max emin (e + e + int (bitlen k) - 53)"
    and q53: "q' \<le> 2 ^ 53" and q52: "emin < e' \<longrightarrow> 2 ^ 52 \<le> q'"
    and rp: "round_double False k (e + e) False = pack_double False q' e'"
    and err: "\<bar>real q' * 2 powi e' - V\<bar> \<le> 2 powi (e' - 1)"
    by blast
  have e'eq: "e' = e + e + int (bitlen k) - 53" using e' n by simp
  have pk: "pack_double False q' e' = Finite False q g" using rd rp by simp
  have val: "real q * 2 powi g = real q' * 2 powi e'"
    using pack_double_value [of False q' e'] pk by auto
  show fin: "is_finite (Finite False q g)"
    using round_double_valid [of False k "e + e" False] rd by auto
  have mag: "2 powi (e' + 52) \<le> V"
    using round_double_magnitude(2) [OF kpos e' n] unfolding V_def .
  have "(2::real) powi (e' + 52) = 2 ^ 53 * 2 powi (e' - 1)"
  proof -
    have "e' + 52 = (e' - 1) + 53" by simp
    then show ?thesis by (simp only: powi_53)
  qed
  with mag have "2 powi (e' - 1) \<le> V / 2 ^ 53" by (simp add: field_simps)
  with err show "\<bar>real q * 2 powi g - (real m * 2 powi e)\<^sup>2\<bar> \<le> (real m * 2 powi e)\<^sup>2 / 2 ^ 53"
    unfolding val V [symmetric] by simp
  have small: "2 ^ (bitlen k - 54) < m"
  proof -
    have "2 ^ (bitlen k - 1) \<le> k" using kpos by (rule bitlen_lower)
    also have "k < m * 2 ^ 53" unfolding k_def using m53 mpos by simp
    finally have "2 ^ (bitlen k - 1) < m * 2 ^ 53" .
    moreover have "bitlen k - 1 = (bitlen k - 54) + 53" using bl105 by simp
    ultimately have "2 ^ (bitlen k - 54) * 2 ^ 53 < m * 2 ^ 53"
      by (simp only: power_add)
    then show ?thesis by simp
  qed
  then have "2 ^ (bitlen k - 54) + 1 \<le> m" by simp
  then have "real (2 ^ (bitlen k - 54) + 1) \<le> real m" by (rule iffD2 [OF of_nat_le_iff])
  then have small': "2 ^ (bitlen k - 54) \<le> real m - 1" by simp
  have "e' - 1 = (e + e) + int (bitlen k - 54)" using e'eq bl105 by simp
  then have "(2::real) powi (e' - 1) = 2 powi (e + e) * 2 ^ (bitlen k - 54)"
    by (simp only: powi_shift)
  also have "\<dots> \<le> 2 powi (e + e) * (real m - 1)"
    using small' by (intro mult_left_mono) simp_all
  finally have "2 powi (e' - 1) \<le> (real m - 1) * (2 powi e)\<^sup>2"
    unfolding powi_double by (simp add: mult.commute)
  with err show "\<bar>real q * 2 powi g - (real m * 2 powi e)\<^sup>2\<bar> \<le> (real m - 1) * (2 powi e)\<^sup>2"
    unfolding val V [symmetric] by simp
  show "real q * 2 powi g = (real m * 2 powi e)\<^sup>2" if "m = 2 ^ 52"
  proof -
    have k: "k = 2 ^ 52 * 2 ^ 52" using that by (simp add: k_def)
    have "bitlen (2 ^ 52 * 2 ^ 52) = Suc 104" by (rule bitlen_eqI) simp_all
    then have "bitlen k = 105" using k by simp
    then have e'52: "e' = e + e + 52" using e'eq by simp
    have "e' \<le> emax" using pk by (rule pack_finite_exp)
    then have f: "is_finite (Finite False (2 ^ 52) (e + e + 52))"
      using e563 unfolding e'52 by (simp add: is_finite_def emin_def)
    have "round_double False (2 ^ 52 * 2 ^ 52) (e + e + 52 - int 52) False
            = Finite False (2 ^ 52) (e + e + 52)"
      using f by (rule round_double_exact) simp
    then have "Finite False q g = Finite False (2 ^ 52) (e + e + 52)"
      using rd k by simp
    then have "real q * 2 powi g = 2 ^ 52 * 2 powi (e + e + 52)" by simp
    also have "\<dots> = 2 ^ 52 * (2 ^ 52 * 2 powi (e + e))" by (simp only: powi_52)
    also have "\<dots> = (2 ^ 52 * 2 powi e)\<^sup>2"
      unfolding powi_double by (simp add: power2_eq_square)
    finally show ?thesis using that by simp
  qed
qed

lemma fsqrt_square_le:
  assumes c: "is_finite (Finite s m e)" and big: "2 powi (- 511) \<le> real m * 2 powi e"
    and r: "fmul (Finite s m e) (Finite s m e) = Finite False q g"
  shows "\<exists>Q E. fsqrt (Finite False q g) = Finite False Q E
           \<and> real Q * 2 powi E \<le> real m * 2 powi e"
proof -
  from c have a: "is_finite (Finite False m e)" by (simp add: is_finite_def)
  define u :: real where "u = 2 powi e"
  define M where "M = real m"
  have u: "0 < u" by (simp add: u_def)
  have M0: "0 \<le> M" by (simp add: M_def)
  from fmul_self_value(2) [OF c big r]
  have "real q * 2 powi g \<le> (M * u)\<^sup>2 + (M - 1) * u\<^sup>2"
    unfolding M_def u_def by linarith
  also have "\<dots> < ((M + 1 / 2) * u)\<^sup>2"
  proof -
    have "((M + 1 / 2) * u)\<^sup>2 - ((M * u)\<^sup>2 + (M - 1) * u\<^sup>2) = (5 / 4) * u\<^sup>2"
      by (simp add: power2_eq_square algebra_simps)
    moreover have "0 < (5 / 4) * u\<^sup>2" using u by simp
    ultimately show ?thesis by linarith
  qed
  finally have "valof (Finite False q g) < ((M + 1 / 2) * u)\<^sup>2" by (simp add: valof_Finite)
  then have "sqrt (valof (Finite False q g)) < (M + 1 / 2) * u"
    using u M0 by (intro real_less_lsqrt) simp_all
  then show ?thesis unfolding M_def u_def by (rule fsqrt_down [OF a])
qed

lemma coord_le_fsqrt:
  assumes c: "is_finite (Finite s m e)"
    and rng: "m = 0 \<or> 2 powi (- 511) \<le> real m * 2 powi e"
    and r: "fmul (Finite s m e) (Finite s m e) = Finite False q g"
    and S: "real q * 2 powi g \<le> real mS * 2 powi eS"
  shows "fsqrt (Finite False mS eS) = Infinity False
         \<or> (\<exists>Q E. fsqrt (Finite False mS eS) = Finite False Q E
                \<and> real m * 2 powi e \<le> real Q * 2 powi E)"
proof (cases "(real m * 2 powi e)\<^sup>2 \<le> real mS * 2 powi eS")
  case True
  from c have a: "is_finite (Finite False m e)" by (simp add: is_finite_def)
  from fsqrt_lower [OF a, of mS eS] True show ?thesis by (simp add: valof_Finite)
next
  case False
  from c have a: "is_finite (Finite False m e)" by (simp add: is_finite_def)
  have "m \<noteq> 0"
  proof
    assume "m = 0"
    then have "(real m * 2 powi e)\<^sup>2 = 0" by simp
    moreover have "0 \<le> real mS * 2 powi eS" by simp
    ultimately show False using False by simp
  qed
  then have big: "2 powi (- 511) \<le> real m * 2 powi e" using rng by simp
  note m52 = in_range_normal(1) [OF c big]
  have "m \<noteq> 2 ^ 52" using fmul_self_value(3) [OF c big r] S False by auto
  then have nb: "2 ^ 52 < m \<or> e = emin" using m52 by simp
  define u :: real where "u = 2 powi e"
  define M where "M = real m"
  have u: "0 < u" by (simp add: u_def)
  have "((M - 1 / 2) * u)\<^sup>2 < (M * u)\<^sup>2 - (M - 1) * u\<^sup>2"
  proof -
    have "(M * u)\<^sup>2 - (M - 1) * u\<^sup>2 - ((M - 1 / 2) * u)\<^sup>2 = (3 / 4) * u\<^sup>2"
      by (simp add: power2_eq_square algebra_simps)
    moreover have "0 < (3 / 4) * u\<^sup>2" using u by simp
    ultimately show ?thesis by linarith
  qed
  also have "\<dots> \<le> real q * 2 powi g"
    using fmul_self_value(2) [OF c big r] unfolding M_def u_def by linarith
  also note S
  finally have "((M - 1 / 2) * u)\<^sup>2 < valof (Finite False mS eS)" by (simp add: valof_Finite)
  then have "(M - 1 / 2) * u < sqrt (valof (Finite False mS eS))" by (rule real_less_rsqrt)
  then show ?thesis unfolding M_def u_def by (rule fsqrt_up [OF a nb])
qed

section \<open>Arithmetic on particular doubles\<close>

lemma double_of_nat_2: "double_of_nat 2 = Finite False (2 ^ 52) (- 51)"
proof -
  have "bitlen 2 = Suc 1" by (rule bitlen_eqI) simp_all
  then show ?thesis by (simp add: double_eval)
qed

lemma double_of_nat_3: "double_of_nat 3 = Finite False (3 * 2 ^ 51) (- 51)"
proof -
  have "bitlen 3 = Suc 1" by (rule bitlen_eqI) simp_all
  then show ?thesis by (simp add: double_eval)
qed

lemma double_of_nat_4: "double_of_nat 4 = Finite False (2 ^ 52) (- 50)"
proof -
  have "bitlen 4 = Suc 2" by (rule bitlen_eqI) simp_all
  then show ?thesis by (simp add: double_eval)
qed

lemma double_of_nat_6: "double_of_nat 6 = Finite False (3 * 2 ^ 51) (- 50)"
proof -
  have "bitlen 6 = Suc 2" by (rule bitlen_eqI) simp_all
  then show ?thesis by (simp add: double_eval)
qed

lemma double_of_nat_8: "double_of_nat 8 = Finite False (2 ^ 52) (- 49)"
proof -
  have "bitlen 8 = Suc 3" by (rule bitlen_eqI) simp_all
  then show ?thesis by (simp add: double_eval)
qed

lemma double_of_nat_12: "double_of_nat 12 = Finite False (3 * 2 ^ 51) (- 49)"
proof -
  have "bitlen 12 = Suc 3" by (rule bitlen_eqI) simp_all
  then show ?thesis by (simp add: double_eval)
qed

lemma double_of_nat_16: "double_of_nat 16 = Finite False (2 ^ 52) (- 48)"
proof -
  have "bitlen 16 = Suc 4" by (rule bitlen_eqI) simp_all
  then show ?thesis by (simp add: double_eval)
qed

lemma fmul_2_2: "double_of_nat 2 * double_of_nat 2 = double_of_nat 4"
proof -
  have "bitlen (2 ^ 52 * 2 ^ 52) = Suc 104" by (rule bitlen_eqI) simp_all
  then show ?thesis
    by (simp add: times_double_def double_of_nat_2 double_of_nat_4 round_double_def Let_def
          emin_def emax_def)
qed

lemma fmul_3_2: "double_of_nat 3 * double_of_nat 2 = double_of_nat 6"
proof -
  have "bitlen (3 * 2 ^ 51 * 2 ^ 52) = Suc 104" by (rule bitlen_eqI) simp_all
  then show ?thesis
    by (simp add: times_double_def double_of_nat_2 double_of_nat_3 double_of_nat_6
          round_double_def Let_def emin_def emax_def)
qed

lemma fmul_4_2: "double_of_nat 4 * double_of_nat 2 = double_of_nat 8"
proof -
  have "bitlen (2 ^ 52 * 2 ^ 52) = Suc 104" by (rule bitlen_eqI) simp_all
  then show ?thesis
    by (simp add: times_double_def double_of_nat_2 double_of_nat_4 double_of_nat_8
          round_double_def Let_def emin_def emax_def)
qed

lemma fmul_3_4: "double_of_nat 3 * double_of_nat 4 = double_of_nat 12"
proof -
  have "bitlen (3 * 2 ^ 51 * 2 ^ 52) = Suc 104" by (rule bitlen_eqI) simp_all
  then show ?thesis
    by (simp add: times_double_def double_of_nat_3 double_of_nat_4 double_of_nat_12
          round_double_def Let_def emin_def emax_def)
qed

lemma fmul_4_4: "double_of_nat 4 * double_of_nat 4 = double_of_nat 16"
proof -
  have "bitlen (2 ^ 52 * 2 ^ 52) = Suc 104" by (rule bitlen_eqI) simp_all
  then show ?thesis
    by (simp add: times_double_def double_of_nat_4 double_of_nat_16 round_double_def Let_def
          emin_def emax_def)
qed

lemma double_of_nat_6_12: "double_of_nat 6 \<noteq> double_of_nat 12"
  by (simp add: double_of_nat_6 double_of_nat_12)

lemma fmul_3_3: "double_of_nat 3 * double_of_nat 3 = Finite False (9 * 2 ^ 49) (- 49)"
proof -
  have "bitlen (3 * 2 ^ 51 * (3 * 2 ^ 51)) = Suc 105" by (rule bitlen_eqI) simp_all
  then show ?thesis
    by (simp add: times_double_def double_of_nat_3 round_double_def Let_def emin_def emax_def)
qed

lemma fadd_9_16:
  "Finite False (9 * 2 ^ 49) (- 49) + double_of_nat 16 = Finite False (25 * 2 ^ 48) (- 48)"
proof -
  have "bitlen (9 * 2 ^ 49 + 2 ^ 52 * 2) = Suc 53" by (rule bitlen_eqI) simp_all
  then show ?thesis
    by (simp add: plus_double_def double_of_nat_16 round_double_def Let_def emin_def emax_def
          signed_def)
qed

lemma fadd_3_4: "double_of_nat 3 + double_of_nat 4 = Finite False (7 * 2 ^ 50) (- 50)"
proof -
  have "bitlen (3 * 2 ^ 51 + 2 ^ 52 * 2) = Suc 53" by (rule bitlen_eqI) simp_all
  then show ?thesis
    by (simp add: plus_double_def double_of_nat_3 double_of_nat_4 round_double_def Let_def
          emin_def emax_def signed_def)
qed

lemma fadd_zero_right_eval:
  "is_finite x \<Longrightarrow> \<not> is_zero x \<Longrightarrow> x + 0 = x"
  unfolding plus_double_def using fadd_zero_right is_finite_zero by blast

lemma fabs_nonneg_eval: "\<bar>Finite False m e\<bar> = Finite False m e"
  by (simp add: abs_double_def)


section \<open>Facts about memory and the mutating methods\<close>

lemma set3_get3 [simp]: "get3 (set3 a i v) j = (if i = j then v else get3 a j)"
  by (cases a; cases i; cases j) simp_all

lemma set3_elems:
  "set3 (set3 (set3 a I0 u) I1 v) I2 w = Array3 u v w"
  by (cases a) simp

lemma get3_elems [simp]:
  "get3 a I0 = elem0 a" "get3 a I1 = elem1 a" "get3 a I2 = elem2 a"
  by simp_all

lemma write_ref_coord_points:
  "points (write_ref mem (Coord_ref a i) v) =
     (points mem)(a := \<lparr>xyz = set3 (xyz (points mem a)) i v\<rparr>)"
  by simp

lemma write_ref_coord_frame:
  "scalars (write_ref mem (Coord_ref a i) v) = scalars mem"
  "matrices (write_ref mem (Coord_ref a i) v) = matrices mem"
  by simp_all

lemma transform_points:
  "points (fst (transform mem this m)) =
     (points mem)(this := Point_coords
        (elem0 (xyz (points mem this)) * at0 (at0 (matrices mem m))
           + elem1 (xyz (points mem this)) * at1 (at0 (matrices mem m))
           + elem2 (xyz (points mem this)) * at2 (at0 (matrices mem m))
           + at3 (at0 (matrices mem m)))
        (elem0 (xyz (points mem this)) * at0 (at1 (matrices mem m))
           + elem1 (xyz (points mem this)) * at1 (at1 (matrices mem m))
           + elem2 (xyz (points mem this)) * at2 (at1 (matrices mem m))
           + at3 (at1 (matrices mem m)))
        (elem0 (xyz (points mem this)) * at0 (at2 (matrices mem m))
           + elem1 (xyz (points mem this)) * at1 (at2 (matrices mem m))
           + elem2 (xyz (points mem this)) * at2 (at2 (matrices mem m))
           + at3 (at2 (matrices mem m))))"
  by (cases "xyz (points mem this)")
     (simp add: transform_def Let_def Point_coords_def fun_eq_iff)

lemma transform_frame:
  "scalars (fst (transform mem this m)) = scalars mem"
  "matrices (fst (transform mem this m)) = matrices mem"
  "snd (transform mem this m) = this"
  by (simp_all add: transform_def Let_def)


lemma plus_assign_points:
  "points (fst (operator_plus_assign mem this p)) =
     (points mem)(this := operator_plus (points mem this) (points mem p))"
  by (cases "xyz (points mem this)"; cases "p = this")
     (simp_all add: operator_plus_assign_def add_assign_def Let_def operator_plus_def
        Point_coords_def fun_eq_iff)

lemma minus_assign_points:
  "points (fst (operator_minus_assign mem this p)) =
     (points mem)(this := operator_minus (points mem this) (points mem p))"
  by (cases "xyz (points mem this)"; cases "p = this")
     (simp_all add: operator_minus_assign_def sub_assign_def Let_def operator_minus_def
        Point_coords_def fun_eq_iff)

lemma plus_assign_frame:
  "scalars (fst (operator_plus_assign mem this p)) = scalars mem"
  "matrices (fst (operator_plus_assign mem this p)) = matrices mem"
  "snd (operator_plus_assign mem this p) = this"
  by (simp_all add: operator_plus_assign_def add_assign_def Let_def)

lemma minus_assign_frame:
  "scalars (fst (operator_minus_assign mem this p)) = scalars mem"
  "matrices (fst (operator_minus_assign mem this p)) = matrices mem"
  "snd (operator_minus_assign mem this p) = this"
  by (simp_all add: operator_minus_assign_def sub_assign_def Let_def)

lemma read_ref_write_other:
  "d \<noteq> Coord_ref a i \<Longrightarrow> read_ref (write_ref mem (Coord_ref a i) v) d = read_ref mem d"
  by (cases d) auto

lemma times_assign_points:
  assumes "d \<noteq> Coord_ref this I0" and "d \<noteq> Coord_ref this I1"
  shows "points (fst (operator_times_assign mem this d)) =
           (points mem)(this := operator_times (points mem this) (read_ref mem d))"
proof -
  have r1: "read_ref (mul_assign mem (Coord_ref this I0) d) d = read_ref mem d"
    unfolding mul_assign_def using assms(1) by (rule read_ref_write_other)
  have r2: "read_ref (mul_assign (mul_assign mem (Coord_ref this I0) d) (Coord_ref this I1) d) d
              = read_ref mem d"
    unfolding mul_assign_def [of "mul_assign mem (Coord_ref this I0) d"]
      read_ref_write_other [OF assms(2)]
    by (rule r1)
  show ?thesis
    unfolding operator_times_assign_def Let_def fst_conv
    unfolding mul_assign_def [of "mul_assign (mul_assign mem (Coord_ref this I0) d) (Coord_ref this I1) d"]
    unfolding r2
    unfolding mul_assign_def [of "mul_assign mem (Coord_ref this I0) d"]
    unfolding r1
    unfolding mul_assign_def
    by (cases "xyz (points mem this)")
       (simp add: operator_times_def Point_coords_def fun_eq_iff)
qed

lemma divide_assign_points:
  assumes "d \<noteq> Coord_ref this I0" and "d \<noteq> Coord_ref this I1"
  shows "points (fst (operator_divide_assign mem this d)) =
           (points mem)(this := operator_divide (points mem this) (read_ref mem d))"
proof -
  have r1: "read_ref (div_assign mem (Coord_ref this I0) d) d = read_ref mem d"
    unfolding div_assign_def using assms(1) by (rule read_ref_write_other)
  have r2: "read_ref (div_assign (div_assign mem (Coord_ref this I0) d) (Coord_ref this I1) d) d
              = read_ref mem d"
    unfolding div_assign_def [of "div_assign mem (Coord_ref this I0) d"]
      read_ref_write_other [OF assms(2)]
    by (rule r1)
  show ?thesis
    unfolding operator_divide_assign_def Let_def fst_conv
    unfolding div_assign_def [of "div_assign (div_assign mem (Coord_ref this I0) d) (Coord_ref this I1) d"]
    unfolding r2
    unfolding div_assign_def [of "div_assign mem (Coord_ref this I0) d"]
    unfolding r1
    unfolding div_assign_def
    by (cases "xyz (points mem this)")
       (simp add: operator_divide_def Point_coords_def fun_eq_iff)
qed

lemma times_assign_result: "snd (operator_times_assign mem this d) = this"
  by (simp add: operator_times_assign_def Let_def)

lemma divide_assign_result: "snd (operator_divide_assign mem this d) = this"
  by (simp add: operator_divide_assign_def Let_def)

lemma times_assign_alias_x:
  "points (fst (operator_times_assign mem this (x_ref this))) this =
     Point_coords
       (elem0 (xyz (points mem this)) * elem0 (xyz (points mem this)))
       (elem1 (xyz (points mem this))
          * (elem0 (xyz (points mem this)) * elem0 (xyz (points mem this))))
       (elem2 (xyz (points mem this))
          * (elem0 (xyz (points mem this)) * elem0 (xyz (points mem this))))"
  by (cases "xyz (points mem this)")
     (simp add: operator_times_assign_def mul_assign_def Let_def x_ref_def Point_coords_def)

lemma divide_assign_alias_x:
  "points (fst (operator_divide_assign mem this (x_ref this))) this =
     Point_coords
       (elem0 (xyz (points mem this)) / elem0 (xyz (points mem this)))
       (elem1 (xyz (points mem this))
          / (elem0 (xyz (points mem this)) / elem0 (xyz (points mem this))))
       (elem2 (xyz (points mem this))
          / (elem0 (xyz (points mem this)) / elem0 (xyz (points mem this))))"
  by (cases "xyz (points mem this)")
     (simp add: operator_divide_assign_def div_assign_def Let_def x_ref_def Point_coords_def)

section \<open>The affine transform\<close>

lemma keeps_add_zero:
  assumes "is_finite x" and "r = x \<or> (is_zero x \<and> is_finite r \<and> is_zero r)"
    and "is_finite z" and "is_zero z"
  shows "fadd r z = x \<or> (is_zero x \<and> is_finite (fadd r z) \<and> is_zero (fadd r z))"
proof (cases "is_zero x")
  case True
  with assms(1,2) have "is_finite r \<and> is_zero r" by auto
  then show ?thesis using True fadd_zero_zero assms(3,4) by blast
next
  case False
  with assms(2) have "r = x" by blast
  then show ?thesis using fadd_zero_right [OF assms(1) False assms(3,4)] by simp
qed

lemma keeps_zero_add:
  assumes "is_finite x" and "r = x \<or> (is_zero x \<and> is_finite r \<and> is_zero r)"
    and "is_finite z" and "is_zero z"
  shows "fadd z r = x \<or> (is_zero x \<and> is_finite (fadd z r) \<and> is_zero (fadd z r))"
proof (cases "is_zero x")
  case True
  with assms(1,2) have "is_finite r \<and> is_zero r" by auto
  then show ?thesis using True fadd_zero_zero assms(3,4) by blast
next
  case False
  with assms(2) have "r = x" by blast
  then show ?thesis using fadd_zero_left [OF assms(1) False assms(3,4)] by simp
qed

lemma keeps_feq:
  assumes "is_finite x" and "r = x \<or> (is_zero x \<and> is_finite r \<and> is_zero r)"
  shows "feq r x"
  using assms feq_refl feq_zeros by blast

lemma identity_row0:
  assumes x: "is_finite x" and y: "is_finite y" and z: "is_finite z"
  shows "feq (x * 1 + y * 0 + z * 0 + 0) x"
proof -
  note zero = is_finite_zero [THEN conjunct1] is_finite_zero [THEN conjunct2]
  have y0: "is_finite (fmul y 0) \<and> is_zero (fmul y 0)"
    using fmul_zero_right [OF y zero] .
  have z0: "is_finite (fmul z 0) \<and> is_zero (fmul z 0)"
    using fmul_zero_right [OF z zero] .
  have a: "fmul x 1 = x \<or> (is_zero x \<and> is_finite (fmul x 1) \<and> is_zero (fmul x 1))"
    using fmul_one_right [OF x] by simp
  have b: "fadd (fmul x 1) (fmul y 0) = x
             \<or> (is_zero x \<and> is_finite (fadd (fmul x 1) (fmul y 0))
                  \<and> is_zero (fadd (fmul x 1) (fmul y 0)))"
    using keeps_add_zero [OF x a] y0 by blast
  have c: "fadd (fadd (fmul x 1) (fmul y 0)) (fmul z 0) = x
             \<or> (is_zero x \<and> is_finite (fadd (fadd (fmul x 1) (fmul y 0)) (fmul z 0))
                  \<and> is_zero (fadd (fadd (fmul x 1) (fmul y 0)) (fmul z 0)))"
    using keeps_add_zero [OF x b] z0 by blast
  have d: "fadd (fadd (fadd (fmul x 1) (fmul y 0)) (fmul z 0)) 0 = x
             \<or> (is_zero x
                  \<and> is_finite (fadd (fadd (fadd (fmul x 1) (fmul y 0)) (fmul z 0)) 0)
                  \<and> is_zero (fadd (fadd (fadd (fmul x 1) (fmul y 0)) (fmul z 0)) 0))"
    using keeps_add_zero [OF x c zero] .
  show ?thesis
    unfolding plus_double_def times_double_def using keeps_feq [OF x d] .
qed

lemma identity_row1:
  assumes x: "is_finite x" and y: "is_finite y" and z: "is_finite z"
  shows "feq (x * 0 + y * 1 + z * 0 + 0) y"
proof -
  note zero = is_finite_zero [THEN conjunct1] is_finite_zero [THEN conjunct2]
  have x0: "is_finite (fmul x 0) \<and> is_zero (fmul x 0)"
    using fmul_zero_right [OF x zero] .
  have z0: "is_finite (fmul z 0) \<and> is_zero (fmul z 0)"
    using fmul_zero_right [OF z zero] .
  have a: "fmul y 1 = y \<or> (is_zero y \<and> is_finite (fmul y 1) \<and> is_zero (fmul y 1))"
    using fmul_one_right [OF y] by simp
  have b: "fadd (fmul x 0) (fmul y 1) = y
             \<or> (is_zero y \<and> is_finite (fadd (fmul x 0) (fmul y 1))
                  \<and> is_zero (fadd (fmul x 0) (fmul y 1)))"
    using keeps_zero_add [OF y a] x0 by blast
  have c: "fadd (fadd (fmul x 0) (fmul y 1)) (fmul z 0) = y
             \<or> (is_zero y \<and> is_finite (fadd (fadd (fmul x 0) (fmul y 1)) (fmul z 0))
                  \<and> is_zero (fadd (fadd (fmul x 0) (fmul y 1)) (fmul z 0)))"
    using keeps_add_zero [OF y b] z0 by blast
  have d: "fadd (fadd (fadd (fmul x 0) (fmul y 1)) (fmul z 0)) 0 = y
             \<or> (is_zero y
                  \<and> is_finite (fadd (fadd (fadd (fmul x 0) (fmul y 1)) (fmul z 0)) 0)
                  \<and> is_zero (fadd (fadd (fadd (fmul x 0) (fmul y 1)) (fmul z 0)) 0))"
    using keeps_add_zero [OF y c zero] .
  show ?thesis
    unfolding plus_double_def times_double_def using keeps_feq [OF y d] .
qed

lemma identity_row2:
  assumes x: "is_finite x" and y: "is_finite y" and z: "is_finite z"
  shows "feq (x * 0 + y * 0 + z * 1 + 0) z"
proof -
  note zero = is_finite_zero [THEN conjunct1] is_finite_zero [THEN conjunct2]
  have x0: "is_finite (fmul x 0) \<and> is_zero (fmul x 0)"
    using fmul_zero_right [OF x zero] .
  have y0: "is_finite (fmul y 0) \<and> is_zero (fmul y 0)"
    using fmul_zero_right [OF y zero] .
  have xy: "is_finite (fadd (fmul x 0) (fmul y 0)) \<and> is_zero (fadd (fmul x 0) (fmul y 0))"
    using fadd_zero_zero x0 y0 by blast
  have a: "fmul z 1 = z \<or> (is_zero z \<and> is_finite (fmul z 1) \<and> is_zero (fmul z 1))"
    using fmul_one_right [OF z] by simp
  have c: "fadd (fadd (fmul x 0) (fmul y 0)) (fmul z 1) = z
             \<or> (is_zero z \<and> is_finite (fadd (fadd (fmul x 0) (fmul y 0)) (fmul z 1))
                  \<and> is_zero (fadd (fadd (fmul x 0) (fmul y 0)) (fmul z 1)))"
    using keeps_zero_add [OF z a] xy by blast
  have d: "fadd (fadd (fadd (fmul x 0) (fmul y 0)) (fmul z 1)) 0 = z
             \<or> (is_zero z
                  \<and> is_finite (fadd (fadd (fadd (fmul x 0) (fmul y 0)) (fmul z 1)) 0)
                  \<and> is_zero (fadd (fadd (fadd (fmul x 0) (fmul y 0)) (fmul z 1)) 0))"
    using keeps_add_zero [OF z c zero] .
  show ?thesis
    unfolding plus_double_def times_double_def using keeps_feq [OF z d] .
qed


lemma memory_of_simps [simp]:
  "points (memory_of p M) a = p" "scalars (memory_of p M) a = 0"
  "matrices (memory_of p M) a = M"
  by (simp_all add: memory_of_def)

lemma fmul_inf_one: "fmul (Infinity s) 1 = Infinity s"
  by (simp add: one_double_def)

lemma fmul_inf_zero: "fmul (Infinity s) 0 = NaN"
  by (simp add: zero_double_def)

lemma fmul_zero_zero: "fmul 0 0 = (0::double)"
  by (simp add: zero_double_def round_double_def)

lemma fmul_zero_one: "fmul 0 1 = (0::double)"
  by (simp add: zero_double_def one_double_def round_double_def)

lemma fadd_zero_zero_eq: "fadd 0 0 = (0::double)"
  by (simp add: zero_double_def signed_def)

lemma fadd_inf_zero: "fadd (Infinity s) 0 = Infinity s"
  by (simp add: zero_double_def)

lemma fadd_NaN_left: "fadd NaN x = NaN"
  by simp


lemma is_finite_neg_one: "is_finite (- 1)"
  by (simp add: uminus_double_def one_double_def is_finite_def emin_def emax_def)


text \<open>
  C1 (as amended). \<open>transform(m)\<close> overwrites the receiver with
  \<open>new_x = x*m[0][0] + y*m[0][1] + z*m[0][2] + m[0][3]\<close>, and likewise \<open>new_y\<close> from row 1
  and \<open>new_z\<close> from row 2, where \<open>x\<close>, \<open>y\<close>, \<open>z\<close> are the coordinates before the call, and it
  returns a reference to the receiver. Consequently the identity matrix leaves every point
  with finite coordinates unchanged, as \<open>==\<close> compares the coordinates.
\<close>

theorem transform_affine:
  "points (fst (transform mem this m)) this =
     Point_coords
       (x_const (points mem this) * at0 (at0 (matrices mem m))
          + y_const (points mem this) * at1 (at0 (matrices mem m))
          + z_const (points mem this) * at2 (at0 (matrices mem m))
          + at3 (at0 (matrices mem m)))
       (x_const (points mem this) * at0 (at1 (matrices mem m))
          + y_const (points mem this) * at1 (at1 (matrices mem m))
          + z_const (points mem this) * at2 (at1 (matrices mem m))
          + at3 (at1 (matrices mem m)))
       (x_const (points mem this) * at0 (at2 (matrices mem m))
          + y_const (points mem this) * at1 (at2 (matrices mem m))
          + z_const (points mem this) * at2 (at2 (matrices mem m))
          + at3 (at2 (matrices mem m)))
   \<and> snd (transform mem this m) = this
   \<and> (finite_coords (points mem this) \<and> matrices mem m = identity4 \<longrightarrow>
        Point_eq (points (fst (transform mem this m)) this) (points mem this))"
proof (intro conjI impI)
  show "points (fst (transform mem this m)) this =
     Point_coords
       (x_const (points mem this) * at0 (at0 (matrices mem m))
          + y_const (points mem this) * at1 (at0 (matrices mem m))
          + z_const (points mem this) * at2 (at0 (matrices mem m))
          + at3 (at0 (matrices mem m)))
       (x_const (points mem this) * at0 (at1 (matrices mem m))
          + y_const (points mem this) * at1 (at1 (matrices mem m))
          + z_const (points mem this) * at2 (at1 (matrices mem m))
          + at3 (at1 (matrices mem m)))
       (x_const (points mem this) * at0 (at2 (matrices mem m))
          + y_const (points mem this) * at1 (at2 (matrices mem m))
          + z_const (points mem this) * at2 (at2 (matrices mem m))
          + at3 (at2 (matrices mem m)))"
    by (simp add: transform_points x_const_def y_const_def z_const_def)
  show "snd (transform mem this m) = this"
    by (rule transform_frame)
next
  assume a: "finite_coords (points mem this) \<and> matrices mem m = identity4"
  then have fin: "is_finite (elem0 (xyz (points mem this)))"
      "is_finite (elem1 (xyz (points mem this)))" "is_finite (elem2 (xyz (points mem this)))"
    by (simp_all add: finite_coords_def)
  from a have M: "matrices mem m = identity4" by simp
  show "Point_eq (points (fst (transform mem this m)) this) (points mem this)"
    unfolding Point_eq_def transform_points M
    by (simp add: identity4_def Point_coords_def
          identity_row0 [OF fin] identity_row1 [OF fin] identity_row2 [OF fin])
qed


text \<open>The point \<open>(1, 0, -1)\<close> has finite coordinates, and the identity matrix leaves it
  unchanged.\<close>

theorem transform_affine_witness:
  "finite_coords (points (memory_of (Point_coords 1 0 (- 1)) identity4) 0)
   \<and> matrices (memory_of (Point_coords 1 0 (- 1)) identity4) 0 = identity4
   \<and> Point_eq
       (points (fst (transform (memory_of (Point_coords 1 0 (- 1)) identity4) 0 0)) 0)
       (points (memory_of (Point_coords 1 0 (- 1)) identity4) 0)"
proof -
  have fin: "finite_coords (points (memory_of (Point_coords 1 0 (- 1)) identity4) 0)"
    by (simp add: finite_coords_def Point_coords_def is_finite_one is_finite_zero
          is_finite_neg_one)
  have M: "matrices (memory_of (Point_coords 1 0 (- 1)) identity4) 0 = identity4"
    by simp
  show ?thesis
    using transform_affine [of "memory_of (Point_coords 1 0 (- 1)) identity4" 0 0] fin M
    by blast
qed

text \<open>
  Without the restriction to finite coordinates the consequence fails: the identity matrix
  sends \<open>(+infinity, 0, 0)\<close> to \<open>(+infinity, NaN, NaN)\<close>, because \<open>infinity * 0\<close> is NaN.
\<close>

theorem transform_identity_counterexample:
  "points (fst (transform (memory_of (Point_coords (Infinity False) 0 0) identity4) 0 0)) 0
     = Point_coords (Infinity False) NaN NaN
   \<and> \<not> Point_eq
         (points (fst (transform (memory_of (Point_coords (Infinity False) 0 0) identity4) 0 0)) 0)
         (points (memory_of (Point_coords (Infinity False) 0 0) identity4) 0)"
  by (simp add: transform_points identity4_def Point_coords_def Point_eq_def
        plus_double_def times_double_def fmul_inf_one fmul_inf_zero fmul_zero_zero
        fmul_zero_one fadd_zero_zero_eq fadd_inf_zero)


text \<open>
  C2. The result of \<open>transform\<close> never depends on row 3 of the matrix: for two matrices
  that agree on rows 0, 1 and 2, the call leaves the same memory behind and returns the same
  reference, whatever their rows 3 hold. No homogeneous divide takes place: the new
  coordinates are the sums of products of rows 0, 1 and 2, not divided by a weight
  \<open>x*m[3][0] + y*m[3][1] + z*m[3][2] + m[3][3]\<close>.
\<close>

theorem transform_ignores_row3:
  assumes "at0 (matrices mem m) = at0 (matrices mem m')"
    and "at1 (matrices mem m) = at1 (matrices mem m')"
    and "at2 (matrices mem m) = at2 (matrices mem m')"
  shows "transform mem this m = transform mem this m'
         \<and> x_const (points (fst (transform mem this m')) this)
             = x_const (points mem this) * at0 (at0 (matrices mem m))
                 + y_const (points mem this) * at1 (at0 (matrices mem m))
                 + z_const (points mem this) * at2 (at0 (matrices mem m))
                 + at3 (at0 (matrices mem m))
         \<and> y_const (points (fst (transform mem this m')) this)
             = x_const (points mem this) * at0 (at1 (matrices mem m))
                 + y_const (points mem this) * at1 (at1 (matrices mem m))
                 + z_const (points mem this) * at2 (at1 (matrices mem m))
                 + at3 (at1 (matrices mem m))
         \<and> z_const (points (fst (transform mem this m')) this)
             = x_const (points mem this) * at0 (at2 (matrices mem m))
                 + y_const (points mem this) * at1 (at2 (matrices mem m))
                 + z_const (points mem this) * at2 (at2 (matrices mem m))
                 + at3 (at2 (matrices mem m))"
proof -
  have same: "transform mem this m = transform mem this m'"
    using assms by (simp add: transform_def)
  show ?thesis
    using same assms
    by (simp add: transform_points x_const_def y_const_def z_const_def Point_coords_def)
qed

text \<open>The identity matrix at address 0 and a matrix with the perspective row
  \<open>(1, 1, 1, 0)\<close> at address 1 differ in row 3 only, and transform the point \<open>(1, 1, 1)\<close>
  alike.\<close>

theorem transform_ignores_row3_witness:
  "at0 (matrices ((memory_of (Point_coords 1 1 1) identity4)
          \<lparr>matrices := (matrices (memory_of (Point_coords 1 1 1) identity4))
             (1 := perspective4)\<rparr>) 0)
     = at0 (matrices ((memory_of (Point_coords 1 1 1) identity4)
          \<lparr>matrices := (matrices (memory_of (Point_coords 1 1 1) identity4))
             (1 := perspective4)\<rparr>) 1)
   \<and> at3 (matrices ((memory_of (Point_coords 1 1 1) identity4)
          \<lparr>matrices := (matrices (memory_of (Point_coords 1 1 1) identity4))
             (1 := perspective4)\<rparr>) 0)
     \<noteq> at3 (matrices ((memory_of (Point_coords 1 1 1) identity4)
          \<lparr>matrices := (matrices (memory_of (Point_coords 1 1 1) identity4))
             (1 := perspective4)\<rparr>) 1)
   \<and> transform ((memory_of (Point_coords 1 1 1) identity4)
          \<lparr>matrices := (matrices (memory_of (Point_coords 1 1 1) identity4))
             (1 := perspective4)\<rparr>) 0 0
     = transform ((memory_of (Point_coords 1 1 1) identity4)
          \<lparr>matrices := (matrices (memory_of (Point_coords 1 1 1) identity4))
             (1 := perspective4)\<rparr>) 0 1"
proof -
  let ?mem = "(memory_of (Point_coords 1 1 1) identity4)
          \<lparr>matrices := (matrices (memory_of (Point_coords 1 1 1) identity4))
             (1 := perspective4)\<rparr>"
  have r0: "at0 (matrices ?mem 0) = at0 (matrices ?mem 1)"
    by (simp add: identity4_def perspective4_def)
  have r1: "at1 (matrices ?mem 0) = at1 (matrices ?mem 1)"
    by (simp add: identity4_def perspective4_def)
  have r2: "at2 (matrices ?mem 0) = at2 (matrices ?mem 1)"
    by (simp add: identity4_def perspective4_def)
  have r3: "at3 (matrices ?mem 0) \<noteq> at3 (matrices ?mem 1)"
    by (simp add: identity4_def perspective4_def zero_double_def one_double_def)
  show ?thesis
    using transform_ignores_row3 [OF r0 r1 r2, of 0] r0 r3 by blast
qed

section \<open>Const methods and constructors\<close>

lemma fsub_zero_zero: "fsub 0 0 = (0::double)"
  by (simp add: fsub_def zero_double_def signed_def)

lemma fsub_one_zero: "fsub 1 0 = (1::double)"
proof -
  have "is_finite (fneg 0) \<and> is_zero (fneg 0)"
    by (simp add: zero_double_def is_finite_def is_zero_def emin_def emax_def)
  moreover have "\<not> is_zero 1"
    by (simp add: one_double_def is_zero_def)
  ultimately show ?thesis
    unfolding fsub_def using fadd_zero_right [OF is_finite_one] by blast
qed

lemma fmul_one_zero: "fmul 1 0 = (0::double)"
  by (simp add: zero_double_def one_double_def round_double_def)

lemma fmul_one_one: "fmul 1 1 = (1::double)"
  using fmul_one_right [OF is_finite_one] .

text \<open>
  C3. \<open>p.cross(q)\<close> is the right-handed cross product
  \<open>(p.y*q.z - q.y*p.z, p.z*q.x - q.z*p.x, p.x*q.y - q.x*p.y)\<close>; the call writes nothing, so
  both operands keep their values; and \<open>Point(1,0,0).cross(Point(0,1,0))\<close> is
  \<open>Point(0,0,1)\<close>.
\<close>

theorem cross_right_handed:
  "x_const (cross p q) = y_const p * z_const q - y_const q * z_const p
   \<and> y_const (cross p q) = z_const p * x_const q - z_const q * x_const p
   \<and> z_const (cross p q) = x_const p * y_const q - x_const q * y_const p
   \<and> fst (call_const_point cross mem a b) = mem
   \<and> snd (call_const_point cross mem a b) = cross (points mem a) (points mem b)
   \<and> cross (Point_coords 1 0 0) (Point_coords 0 1 0) = Point_coords 0 0 1"
proof (intro conjI)
  show "cross (Point_coords 1 0 0) (Point_coords 0 1 0) = Point_coords 0 0 1"
    by (simp add: cross_def Point_coords_def times_double_def minus_double_def
          fmul_zero_zero fmul_one_zero fmul_zero_one fmul_one_one fsub_zero_zero fsub_one_zero)
qed (simp_all add: cross_def Point_coords_def x_const_def y_const_def z_const_def
       call_const_point_def)

section \<open>The three norms\<close>

lemma round_double_sign:
  "round_double s m e st = Infinity s \<or> (\<exists>q f. round_double s m e st = Finite s q f)"
proof (cases "m = 0")
  case True
  then show ?thesis by (simp add: round_double_def)
next
  case False
  then have "0 < m" by simp
  from round_double_grid [OF this, of s e st]
  obtain e' q' where "round_double s m e st = pack_double s q' e'" by blast
  then show ?thesis by (simp add: pack_double_def)
qed

lemma round_double_nonneg: "is_nonneg (round_double False m e st)"
  using round_double_sign [of False m e st] by (auto simp add: is_nonneg_def)

lemma fmul_self_nonneg: "\<not> is_nan x \<Longrightarrow> is_nonneg (fmul x x)"
  by (cases x) (simp_all add: is_nan_def round_double_nonneg, simp add: is_nonneg_def)

lemma fadd_nonneg:
  assumes "is_nonneg x" and "is_nonneg y"
  shows "is_nonneg (fadd x y)"
proof (cases x)
  case (Finite s m e)
  note x = this
  show ?thesis
  proof (cases y)
    case (Finite t n f)
    have s: "\<not> s" and t: "\<not> t" using assms x Finite by (simp_all add: is_nonneg_def)
    define a where "a = signed s m * 2 ^ nat (e - min e f) + signed t n * 2 ^ nat (f - min e f)"
    have "0 \<le> a" using s t by (simp add: a_def signed_def)
    then have neg: "(a < 0) = False" by simp
    have fa: "fadd x y = (if a = 0 then Finite (s \<and> t) 0 emin
                          else round_double (a < 0) (nat \<bar>a\<bar>) (min e f) False)"
      unfolding x Finite fadd.simps Let_def a_def ..
    show ?thesis
    proof (cases "a = 0")
      case True
      have "fadd x y = Finite (s \<and> t) 0 emin" unfolding fa using True by (rule if_P)
      then show ?thesis using s by (simp add: is_nonneg_def)
    next
      case False
      have "fadd x y = round_double (a < 0) (nat \<bar>a\<bar>) (min e f) False"
        unfolding fa using False by (rule if_not_P)
      then have "fadd x y = round_double False (nat \<bar>a\<bar>) (min e f) False"
        unfolding neg .
      then show ?thesis by (simp only: round_double_nonneg)
    qed
  next
    case (Infinity t)
    then show ?thesis using assms x by (simp add: is_nonneg_def)
  next
    case NaN
    then show ?thesis using assms by (simp add: is_nonneg_def)
  qed
next
  case (Infinity s)
  then show ?thesis using assms by (cases y) (simp_all add: is_nonneg_def)
next
  case NaN
  then show ?thesis using assms by (simp add: is_nonneg_def)
qed

lemma fsqrt_nonneg: "is_nonneg x \<Longrightarrow> is_nonneg (fsqrt x)"
  by (cases x) (simp_all add: is_nonneg_def Let_def round_double_nonneg [unfolded is_nonneg_def]
       split: double.splits)

lemma zero_le_nonneg: "is_nonneg x \<Longrightarrow> 0 \<le> x"
  by (cases x)
     (auto simp add: is_nonneg_def less_eq_double_def fle_def zero_double_def signed_def Let_def)

lemma norm2_nonneg:
  assumes "nan_free p"
  shows "is_nonneg (norm2 p)"
proof -
  from assms have sq: "is_nonneg (fmul (elem0 (xyz p)) (elem0 (xyz p)))"
      "is_nonneg (fmul (elem1 (xyz p)) (elem1 (xyz p)))"
      "is_nonneg (fmul (elem2 (xyz p)) (elem2 (xyz p)))"
    by (simp_all add: nan_free_def fmul_self_nonneg)
  show ?thesis
    unfolding norm2_def plus_double_def times_double_def
    by (intro fsqrt_nonneg fadd_nonneg sq)
qed

lemma fsqrt_zero: "fsqrt 0 = 0"
  by (simp add: zero_double_def)

lemma norm2_zero: "norm2 Point_default = 0"
  by (simp add: norm2_def Point_default_def plus_double_def times_double_def
        fmul_zero_zero fadd_zero_zero_eq fsqrt_zero)

lemma is_finite_two_to_600: "is_finite two_to_600 \<and> \<not> is_zero two_to_600"
  by (simp add: two_to_600_def is_finite_def is_zero_def emin_def emax_def)

lemma is_finite_two_to_minus_600: "is_finite two_to_minus_600 \<and> \<not> is_zero two_to_minus_600"
  by (simp add: two_to_minus_600_def is_finite_def is_zero_def emin_def emax_def)

lemma square_overflows: "two_to_600 * two_to_600 = Infinity False"
proof -
  have "bitlen (2 ^ 52 * 2 ^ 52) = Suc 104" by (rule bitlen_eqI) simp_all
  then show ?thesis
    by (simp add: times_double_def two_to_600_def round_double_def Let_def emin_def emax_def)
qed

lemma square_underflows: "two_to_minus_600 * two_to_minus_600 = 0"
proof -
  have "bitlen (2 ^ 52 * 2 ^ 52) = Suc 104" by (rule bitlen_eqI) simp_all
  then show ?thesis
    by (simp add: times_double_def two_to_minus_600_def zero_double_def round_double_def
          Let_def emin_def emax_def)
qed

lemma norm2_overflow: "norm2 (Point_coords two_to_600 0 0) = Infinity False"
  by (simp add: norm2_def Point_coords_def square_overflows)
     (simp add: plus_double_def times_double_def fmul_zero_zero fadd_inf_zero)

lemma norm1_big: "norm1 (Point_coords two_to_600 0 0) = two_to_600"
proof -
  have a: "\<bar>two_to_600\<bar> = two_to_600" by (simp add: abs_double_def two_to_600_def)
  have z: "\<bar>0::double\<bar> = 0" by (simp add: abs_double_def zero_double_def)
  have "fadd two_to_600 0 = two_to_600"
    using fadd_zero_right is_finite_two_to_600 is_finite_zero by blast
  then show ?thesis
    by (simp add: norm1_def Point_coords_def a z plus_double_def)
qed

lemma norm2_underflow: "norm2 (Point_coords two_to_minus_600 0 0) = 0"
  by (simp add: norm2_def Point_coords_def square_underflows)
     (simp add: plus_double_def times_double_def fmul_zero_zero fadd_zero_zero_eq fsqrt_zero)

lemma normInf_tiny: "normInf (Point_coords two_to_minus_600 0 0) = two_to_minus_600"
proof -
  have a: "\<bar>two_to_minus_600\<bar> = two_to_minus_600"
    by (simp add: abs_double_def two_to_minus_600_def)
  have z: "\<bar>0::double\<bar> = 0" by (simp add: abs_double_def zero_double_def)
  have zz: "\<not> (0::double) < 0"
    by (simp add: less_double_def zero_double_def signed_def)
  have tz: "\<not> two_to_minus_600 < 0"
    by (simp add: less_double_def two_to_minus_600_def zero_double_def signed_def emin_def)
  show ?thesis
    by (simp add: normInf_def Point_coords_def a z std_max_def zz tz)
qed

text \<open>
  The chain \<open>normInf(p) <= norm2(p) <= norm1(p)\<close> on doubles. With \<open>a\<close>, \<open>b\<close>, \<open>c\<close> the
  magnitudes of the coordinates: where \<open>a*b + b*c + c*a\<close> is at least \<open>2^-42\<close> of
  \<open>a^2 + b^2 + c^2\<close>, the gap between the exact \<open>norm2\<close> and \<open>norm1\<close> exceeds all rounding
  errors (\<open>chain_real\<close>); elsewhere one coordinate dominates, the sum of squares is the rounded
  square of that coordinate, whose rounded root is its magnitude (\<open>dominant_real\<close>,
  \<open>square_absorbs\<close>, \<open>fsqrt_square_le\<close>).
\<close>

lemma rounding_slack:
  "(1 + 1 / 2 ^ 53 :: real) * (1 + 1 / 2 ^ 53) * (1 + 1 / 2 ^ 53 + 3 / 2 ^ 53)
     \<le> (1 + 1 / 2 ^ 41) * (1 - 1 / 2 ^ 53) ^ 4"
  by (simp add: power_divide)

lemma chain_real:
  fixes a b c X Y Z T S P L \<eta> :: real
  assumes nn: "0 \<le> a" "0 \<le> b" "0 \<le> c"
    and eta: "0 \<le> \<eta>" "\<eta> \<le> (a\<^sup>2 + b\<^sup>2 + c\<^sup>2) / 2 ^ 53"
    and X: "X \<le> a\<^sup>2 * (1 + 1 / 2 ^ 53) + \<eta>" and Y: "Y \<le> b\<^sup>2 * (1 + 1 / 2 ^ 53) + \<eta>"
    and Z: "Z \<le> c\<^sup>2 * (1 + 1 / 2 ^ 53) + \<eta>"
    and T: "T \<le> (X + Y) * (1 + 1 / 2 ^ 53)" and S: "S \<le> (T + Z) * (1 + 1 / 2 ^ 53)"
    and P: "(a + b) * (1 - 1 / 2 ^ 53) \<le> P" and L: "(P + c) * (1 - 1 / 2 ^ 53) \<le> L"
    and cross: "(a\<^sup>2 + b\<^sup>2 + c\<^sup>2) / 2 ^ 42 \<le> a * b + b * c + c * a"
  shows "S \<le> L\<^sup>2"
proof -
  define k :: real where "k = 1 + 1 / 2 ^ 53"
  define d :: real where "d = 1 - 1 / 2 ^ 53"
  define s where "s = a\<^sup>2 + b\<^sup>2 + c\<^sup>2"
  define l where "l = a + b + c"
  have k1: "1 \<le> k" by (simp add: k_def)
  have k0: "0 \<le> k" by (simp add: k_def)
  have d0: "0 \<le> d" by (simp add: d_def)
  have d1: "d \<le> 1" by (simp add: d_def)
  have s0: "0 \<le> s" by (simp add: s_def)
  have l0: "0 \<le> l" using nn by (simp add: l_def)
  have X': "X \<le> a\<^sup>2 * k + \<eta>" using X by (simp only: k_def)
  have Y': "Y \<le> b\<^sup>2 * k + \<eta>" using Y by (simp only: k_def)
  have Z': "Z \<le> c\<^sup>2 * k + \<eta>" using Z by (simp only: k_def)
  have "X + Y \<le> (a\<^sup>2 * k + \<eta>) + (b\<^sup>2 * k + \<eta>)" using X' Y' by (rule add_mono)
  also have "\<dots> = (a\<^sup>2 + b\<^sup>2) * k + 2 * \<eta>" by (simp add: algebra_simps)
  finally have XY: "X + Y \<le> (a\<^sup>2 + b\<^sup>2) * k + 2 * \<eta>" .
  have "T \<le> (X + Y) * k" using T by (simp only: k_def)
  also have "\<dots> \<le> ((a\<^sup>2 + b\<^sup>2) * k + 2 * \<eta>) * k" using XY k0 by (rule mult_right_mono)
  also have "\<dots> = (a\<^sup>2 + b\<^sup>2) * k * k + 2 * (\<eta> * k)" by (simp add: algebra_simps)
  finally have T': "T \<le> (a\<^sup>2 + b\<^sup>2) * k * k + 2 * (\<eta> * k)" .
  have "c\<^sup>2 * k * 1 \<le> c\<^sup>2 * k * k" using k1 k0 by (intro mult_left_mono) simp_all
  moreover have "\<eta> * 1 \<le> \<eta> * k" using k1 eta(1) by (intro mult_left_mono) simp_all
  ultimately have "c\<^sup>2 * k + \<eta> \<le> c\<^sup>2 * k * k + \<eta> * k" by simp
  with Z' have Z'': "Z \<le> c\<^sup>2 * k * k + \<eta> * k" by (rule order_trans)
  have "T + Z \<le> ((a\<^sup>2 + b\<^sup>2) * k * k + 2 * (\<eta> * k)) + (c\<^sup>2 * k * k + \<eta> * k)"
    using T' Z'' by (rule add_mono)
  also have "\<dots> = s * k * k + 3 * (\<eta> * k)" by (simp add: s_def algebra_simps)
  finally have TZ: "T + Z \<le> s * k * k + 3 * (\<eta> * k)" .
  have "S \<le> (T + Z) * k" using S by (simp only: k_def)
  also have "\<dots> \<le> (s * k * k + 3 * (\<eta> * k)) * k" using TZ k0 by (rule mult_right_mono)
  also have "\<dots> = s * (k * k * k) + \<eta> * (3 * (k * k))" by (simp add: algebra_simps)
  also have "\<dots> \<le> s * (k * k * k) + (s / 2 ^ 53) * (3 * (k * k))"
  proof -
    have "\<eta> \<le> s / 2 ^ 53" using eta(2) by (simp only: s_def)
    then have "\<eta> * (3 * (k * k)) \<le> (s / 2 ^ 53) * (3 * (k * k))"
      using k0 by (intro mult_right_mono) simp_all
    then show ?thesis by simp
  qed
  also have "\<dots> = s * (k * k * (k + 3 / 2 ^ 53))" by (simp add: algebra_simps)
  finally have S': "S \<le> s * (k * k * (k + 3 / 2 ^ 53))" .
  have "c * d \<le> c * 1" using d1 nn(3) by (intro mult_left_mono) simp_all
  then have "(a + b) * d + c * d \<le> P + c" using P unfolding d_def [symmetric] by simp
  then have Pc: "l * d \<le> P + c" by (simp add: l_def algebra_simps)
  have "l * d * d \<le> (P + c) * d" using Pc d0 by (rule mult_right_mono)
  also have "\<dots> \<le> L" using L by (simp add: d_def)
  finally have L': "l * d * d \<le> L" .
  have ld0: "0 \<le> l * d * d" using l0 d0 by simp
  have "(l * d * d)\<^sup>2 \<le> L\<^sup>2" using L' ld0 by (rule power_mono)
  moreover have "(l * d * d)\<^sup>2 = l\<^sup>2 * d ^ 4"
    by (simp add: power2_eq_square power4_eq_xxxx)
  ultimately have L2: "l\<^sup>2 * d ^ 4 \<le> L\<^sup>2" by simp
  define cr where "cr = a * b + b * c + c * a"
  define h where "h = s / 2 ^ 42"
  have lsq: "l\<^sup>2 = s + 2 * cr"
    by (simp add: l_def s_def cr_def power2_eq_square algebra_simps)
  have "h \<le> cr" using cross by (simp add: s_def h_def cr_def)
  then have "s + 2 * h \<le> s + 2 * cr" by simp
  moreover have "s + 2 * h = s * (1 + 1 / 2 ^ 41)" by (simp add: h_def algebra_simps)
  ultimately have l2: "s * (1 + 1 / 2 ^ 41) \<le> l\<^sup>2" unfolding lsq by simp
  have d4: "0 \<le> d ^ 4" using d0 by simp
  have "k * k * (k + 3 / 2 ^ 53) \<le> (1 + 1 / 2 ^ 41) * d ^ 4"
    unfolding k_def d_def by (rule rounding_slack)
  then have "s * (k * k * (k + 3 / 2 ^ 53)) \<le> s * ((1 + 1 / 2 ^ 41) * d ^ 4)"
    using s0 by (rule mult_left_mono)
  also have "\<dots> = s * (1 + 1 / 2 ^ 41) * d ^ 4" by simp
  also have "\<dots> \<le> l\<^sup>2 * d ^ 4" using l2 d4 by (rule mult_right_mono)
  also note L2
  finally show ?thesis using S' by simp
qed

lemma dominant_real:
  fixes a b c :: real
  assumes nn: "0 \<le> a" "0 \<le> b" "0 \<le> c"
    and cross: "a * b + b * c + c * a < (a\<^sup>2 + b\<^sup>2 + c\<^sup>2) / 2 ^ 42"
    and mx: "b \<le> a" "c \<le> a"
  shows "0 < a" and "b \<le> a / 2 ^ 40" and "c \<le> a / 2 ^ 40"
proof -
  show a: "0 < a"
  proof (rule ccontr)
    assume "\<not> 0 < a"
    then have "a = 0" using nn(1) by simp
    then have "b = 0" and "c = 0" using mx nn by simp_all
    then show False using cross \<open>a = 0\<close> by simp
  qed
  have "b\<^sup>2 \<le> a\<^sup>2" using mx(1) nn(2) by (rule power_mono)
  moreover have "c\<^sup>2 \<le> a\<^sup>2" using mx(2) nn(3) by (rule power_mono)
  ultimately have "a\<^sup>2 + b\<^sup>2 + c\<^sup>2 \<le> 3 * a\<^sup>2" by simp
  then have "(a\<^sup>2 + b\<^sup>2 + c\<^sup>2) / 2 ^ 42 \<le> 3 * a\<^sup>2 / 2 ^ 42" by (simp add: divide_right_mono)
  moreover have "0 \<le> b * c" using nn by simp
  moreover have "a * (b + c) = a * b + c * a" by (simp add: algebra_simps)
  ultimately have "a * (b + c) < 3 * a\<^sup>2 / 2 ^ 42" using cross by linarith
  also have "\<dots> = a * (3 * a / 2 ^ 42)" by (simp add: power2_eq_square)
  finally have "b + c < 3 * a / 2 ^ 42" using a by (simp only: mult_less_cancel_left_pos)
  moreover have "3 * a / 2 ^ 42 \<le> a / 2 ^ 40" using a by simp
  ultimately have bc: "b + c < a / 2 ^ 40" by linarith
  show "b \<le> a / 2 ^ 40" using bc nn(3) by linarith
  show "c \<le> a / 2 ^ 40" using bc nn(2) by linarith
qed

lemma dominant_real_2:
  fixes a b c :: real
  assumes nn: "0 \<le> a" "0 \<le> b" "0 \<le> c"
    and cross: "a * b + b * c + c * a < (a\<^sup>2 + b\<^sup>2 + c\<^sup>2) / 2 ^ 42"
    and mx: "a \<le> b" "c \<le> b"
  shows "0 < b" and "a \<le> b / 2 ^ 40" and "c \<le> b / 2 ^ 40"
proof -
  have "b * a + a * c + c * b < (b\<^sup>2 + a\<^sup>2 + c\<^sup>2) / 2 ^ 42"
    using cross by (simp add: algebra_simps)
  from dominant_real [OF nn(2) nn(1) nn(3) this mx]
  show "0 < b" and "a \<le> b / 2 ^ 40" and "c \<le> b / 2 ^ 40" .
qed

lemma dominant_real_3:
  fixes a b c :: real
  assumes nn: "0 \<le> a" "0 \<le> b" "0 \<le> c"
    and cross: "a * b + b * c + c * a < (a\<^sup>2 + b\<^sup>2 + c\<^sup>2) / 2 ^ 42"
    and mx: "a \<le> c" "b \<le> c"
  shows "0 < c" and "a \<le> c / 2 ^ 40" and "b \<le> c / 2 ^ 40"
proof -
  have "c * a + a * b + b * c < (c\<^sup>2 + a\<^sup>2 + b\<^sup>2) / 2 ^ 42"
    using cross by (simp add: algebra_simps)
  from dominant_real [OF nn(3) nn(1) nn(2) this mx]
  show "0 < c" and "a \<le> c / 2 ^ 40" and "b \<le> c / 2 ^ 40" .
qed

lemma fadd_Finite_facts:
  assumes x: "is_finite (Finite False m e)" and y: "is_finite (Finite False n f)"
    and r: "fadd (Finite False m e) (Finite False n f) = Finite False q g"
  shows "is_finite (Finite False q g)"
    and "real m * 2 powi e \<le> real q * 2 powi g"
    and "real n * 2 powi f \<le> real q * 2 powi g"
    and "real q * 2 powi g \<le> (real m * 2 powi e + real n * 2 powi f) * (1 + 1 / 2 ^ 53)"
    and "(real m * 2 powi e + real n * 2 powi f) * (1 - 1 / 2 ^ 53) \<le> real q * 2 powi g"
proof -
  have nx: "is_nonneg (Finite False m e)" and ny: "is_nonneg (Finite False n f)"
    by (simp_all add: is_nonneg_def)
  from fadd_lower [OF x nx y ny]
  have "is_finite (Finite False q g) \<and> valof (Finite False m e) \<le> valof (Finite False q g)
          \<and> valof (Finite False n f) \<le> valof (Finite False q g)"
    unfolding r by simp
  then show "is_finite (Finite False q g)"
    and "real m * 2 powi e \<le> real q * 2 powi g"
    and "real n * 2 powi f \<le> real q * 2 powi g"
    by (simp_all add: valof_Finite)
  define V where "V = real m * 2 powi e + real n * 2 powi f"
  define R where "R = real q * 2 powi g"
  define E where "E = V / 2 ^ 53"
  have "\<bar>R - V\<bar> \<le> E"
    using fadd_rel_error [OF x y r] by (simp only: V_def R_def E_def)
  then have "R \<le> V + E" and "V - E \<le> R" by linarith+
  moreover have "V + E = V * (1 + 1 / 2 ^ 53)" by (simp add: E_def algebra_simps)
  moreover have "V - E = V * (1 - 1 / 2 ^ 53)" by (simp add: E_def algebra_simps)
  ultimately show "real q * 2 powi g \<le> (real m * 2 powi e + real n * 2 powi f) * (1 + 1 / 2 ^ 53)"
    and "(real m * 2 powi e + real n * 2 powi f) * (1 - 1 / 2 ^ 53) \<le> real q * 2 powi g"
    by (simp_all only: V_def R_def)
qed

lemma square_rel_error:
  assumes c: "is_finite (Finite s m e)"
    and rng: "m = 0 \<or> 2 powi (- 511) \<le> real m * 2 powi e"
    and r: "fmul (Finite s m e) (Finite s m e) = Finite False q g"
  shows "is_finite (Finite False q g)"
    and "real q * 2 powi g \<le> (real m * 2 powi e)\<^sup>2 * (1 + 1 / 2 ^ 53)"
    and "(real m * 2 powi e)\<^sup>2 * (1 - 1 / 2 ^ 53) \<le> real q * 2 powi g"
proof -
  define V where "V = (real m * 2 powi e)\<^sup>2"
  define R where "R = real q * 2 powi g"
  define E where "E = V / 2 ^ 53"
  have both: "is_finite (Finite False q g) \<and> \<bar>R - V\<bar> \<le> E"
  proof (cases "m = 0")
    case True
    then have "q = 0" and "g = emin" using r by (simp_all add: round_double_def)
    then show ?thesis
      using True by (simp add: is_finite_def emin_def emax_def R_def V_def E_def)
  next
    case False
    then have big: "2 powi (- 511) \<le> real m * 2 powi e" using rng by simp
    from fmul_self_value(1,4) [OF c big r] show ?thesis
      by (simp only: V_def R_def E_def)
  qed
  then show "is_finite (Finite False q g)" ..
  from both have "R \<le> V + E" and "V - E \<le> R" by linarith+
  moreover have "V + E = V * (1 + 1 / 2 ^ 53)" by (simp add: E_def algebra_simps)
  moreover have "V - E = V * (1 - 1 / 2 ^ 53)" by (simp add: E_def algebra_simps)
  ultimately show "real q * 2 powi g \<le> (real m * 2 powi e)\<^sup>2 * (1 + 1 / 2 ^ 53)"
    and "(real m * 2 powi e)\<^sup>2 * (1 - 1 / 2 ^ 53) \<le> real q * 2 powi g"
    by (simp_all only: V_def R_def)
qed

lemma square_absorbs:
  assumes c: "is_finite (Finite s m e)" and big: "2 powi (- 511) \<le> real m * 2 powi e"
    and r: "fmul (Finite s m e) (Finite s m e) = Finite False q g"
    and d: "is_finite (Finite False n f)"
    and small: "real n * 2 powi f \<le> (real m * 2 powi e)\<^sup>2 / 2 ^ 60"
  shows "fadd (Finite False q g) (Finite False n f) = Finite False q g"
    and "fadd (Finite False n f) (Finite False q g) = Finite False q g"
proof -
  define V where "V = (real m * 2 powi e)\<^sup>2"
  define R where "R = real q * 2 powi g"
  define h :: real where "h = 2 powi (g - 1)"
  define N where "N = real n * 2 powi f"
  have "0 < real m * 2 powi e" using big powi_pos [of "- 511"] by linarith
  then have V0: "0 < V" unfolding V_def by (rule zero_less_power)
  have fin: "is_finite (Finite False q g)"
    using square_rel_error(1) [OF c _ r] big by simp
  have "V * (1 - 1 / 2 ^ 53) \<le> R"
    using square_rel_error(3) [OF c _ r] big by (simp add: V_def R_def)
  moreover have "V * (1 / 2) \<le> V * (1 - 1 / 2 ^ 53)"
    using V0 by (intro mult_left_mono) simp_all
  ultimately have VR: "V / 2 \<le> R" by simp
  then have R0: "0 < R" using V0 by linarith
  have q: "0 < q"
  proof (rule ccontr)
    assume "\<not> 0 < q"
    then have "R = 0" by (simp add: R_def)
    with R0 show False by simp
  qed
  from fin have "q < 2 ^ 53" by (simp add: is_finite_def)
  then have "real q + 1 \<le> 2 ^ 53" by (rule real_below_pow53)
  then have "real q < 2 ^ 53" by simp
  then have "real q * 2 powi g < 2 ^ 53 * 2 powi g" by (intro mult_strict_right_mono) simp_all
  moreover have "(2::real) powi g = 2 * h" by (simp add: h_def powi_half)
  ultimately have Rh: "R < 2 ^ 54 * h" by (simp add: R_def)
  have "N * 2 ^ 60 \<le> V" using small by (simp add: N_def V_def field_simps)
  also have "V \<le> 2 * R" using VR by simp
  also have "2 * R < 2 * (2 ^ 54 * h)" using Rh by simp
  finally have "N * 2 ^ 60 < h * 2 ^ 55" by simp
  moreover have "h * 2 ^ 55 \<le> h * 2 ^ 60"
    by (intro mult_left_mono) (simp_all add: h_def)
  ultimately have "N * 2 ^ 60 < h * 2 ^ 60" by (rule less_le_trans)
  then have "N < h" by simp
  then have sm: "real n * 2 powi f < 2 powi (g - 1)" by (simp only: N_def h_def)
  show 1: "fadd (Finite False q g) (Finite False n f) = Finite False q g"
    using fin q d sm by (rule fadd_absorb)
  show "fadd (Finite False n f) (Finite False q g) = Finite False q g"
    using 1 by (simp only: fadd_comm_Finite [of False n f False q g])
qed


lemma square_abs_error:
  assumes c: "is_finite (Finite s m e)"
    and r: "fmul (Finite s m e) (Finite s m e) = Finite False q g"
  shows "is_finite (Finite False q g)"
    and "real q * 2 powi g \<le> (real m * 2 powi e)\<^sup>2 * (1 + 1 / 2 ^ 53) + 2 powi (- 1075)"
proof -
  have rd: "round_double False (m * m) (e + e) False = Finite False q g"
    using r by simp
  show "is_finite (Finite False q g)"
    using round_double_valid [of False "m * m" "e + e" False] rd by auto
  show "real q * 2 powi g \<le> (real m * 2 powi e)\<^sup>2 * (1 + 1 / 2 ^ 53) + 2 powi (- 1075)"
  proof (cases "m = 0")
    case True
    then have "q = 0" using rd by (simp add: round_double_def)
    then show ?thesis using True by simp
  next
    case False
    define k where "k = m * m"
    define V where "V = real k * 2 powi (e + e)"
    have kpos: "0 < k" using False by (simp add: k_def)
    have V: "V = (real m * 2 powi e)\<^sup>2"
      unfolding V_def k_def powi_double by (simp add: power2_eq_square)
    have V0: "0 \<le> V" by (simp add: V_def)
    have lo: "real k * 2 powi (e + e) \<le> V" by (simp add: V_def)
    have hi: "V < (real k + 1) * 2 powi (e + e)" by (simp add: V_def algebra_simps)
    have ex: "\<not> False \<Longrightarrow> V = real k * 2 powi (e + e)" by (rule V_def)
    have nst: "False \<Longrightarrow> 53 < bitlen k" by (erule FalseE)
    from round_double_error [OF kpos lo hi ex nst]
    obtain e' q' where e': "e' = max emin (e + e + int (bitlen k) - 53)"
      and rp: "round_double False k (e + e) False = pack_double False q' e'"
      and err: "\<bar>real q' * 2 powi e' - V\<bar> \<le> 2 powi (e' - 1)"
      by blast
    have pk: "pack_double False q' e' = Finite False q g" using rd rp by (simp add: k_def)
    have val: "real q * 2 powi g = real q' * 2 powi e'"
      using pack_double_value [of False q' e'] pk by auto
    have "2 powi (e' - 1) \<le> V / 2 ^ 53 + 2 powi (- 1075)"
    proof (cases "emin < e'")
      case True
      then have n: "emin \<le> e + e + int (bitlen k) - 53"
        using e' by (simp add: max_def split: if_splits)
      have mag: "2 powi (e' + 52) \<le> V"
        using round_double_magnitude(2) [OF kpos e' n] unfolding V_def .
      have "(2::real) powi (e' + 52) = 2 ^ 53 * 2 powi (e' - 1)"
      proof -
        have "e' + 52 = (e' - 1) + 53" by simp
        then show ?thesis by (simp only: powi_53)
      qed
      with mag have "2 powi (e' - 1) \<le> V / 2 ^ 53" by (simp add: field_simps)
      moreover have "0 \<le> (2::real) powi (- 1075)" by simp
      ultimately show ?thesis by linarith
    next
      case False
      then have "e' = emin" using e' by simp
      then have "(2::real) powi (e' - 1) = 2 powi (- 1075)" by (simp add: emin_def)
      moreover have "0 \<le> V / 2 ^ 53" using V0 by simp
      ultimately show ?thesis by linarith
    qed
    with err have "real q' * 2 powi e' \<le> V + (V / 2 ^ 53 + 2 powi (- 1075))" by linarith
    moreover have "V + (V / 2 ^ 53 + 2 powi (- 1075)) = V * (1 + 1 / 2 ^ 53) + 2 powi (- 1075)"
      by (simp add: algebra_simps)
    ultimately show ?thesis unfolding val V [symmetric] by simp
  qed
qed

text \<open>A double that exceeds a bound \<open>B\<close> by at most \<open>2^-1075\<close>, half the least positive
  double, is at most \<open>2 * B\<close>: it is zero, or at least \<open>2^-1074\<close>.\<close>

lemma small_double:
  assumes fin: "is_finite (Finite False q g)" and B: "0 \<le> B"
    and le: "real q * 2 powi g \<le> B + 2 powi (- 1075)"
  shows "real q * 2 powi g \<le> 2 * B"
proof (cases "q = 0")
  case True
  then show ?thesis using B by simp
next
  case False
  define h :: real where "h = 2 powi (- 1075)"
  from fin have g: "emin \<le> g" by (simp add: is_finite_def)
  have "1 \<le> q" using False by simp
  then have "real 1 \<le> real q" by (rule iffD2 [OF of_nat_le_iff])
  then have "1 * 2 powi g \<le> real q * 2 powi g" by (intro mult_right_mono) simp_all
  then have a: "2 powi g \<le> real q * 2 powi g" by (simp only: mult_1)
  have "(2::real) powi (emin - 1) = 2 powi emin / 2" by (rule powi_half)
  then have "2 * h = 2 powi emin" by (simp add: h_def emin_def)
  also have "\<dots> \<le> 2 powi g" using g by (rule powi_mono)
  also note a
  finally have "2 * h \<le> real q * 2 powi g" .
  moreover have "real q * 2 powi g \<le> B + h" using le by (simp only: h_def)
  ultimately show ?thesis by linarith
qed

lemma dominated_square:
  fixes v w :: real
  assumes fin: "is_finite (Finite False q g)" and w: "0 \<le> w" "w \<le> v / 2 ^ 40"
    and le: "real q * 2 powi g \<le> w\<^sup>2 * (1 + 1 / 2 ^ 53) + 2 powi (- 1075)"
  shows "real q * 2 powi g \<le> v\<^sup>2 / 2 ^ 78"
proof -
  define W where "W = w\<^sup>2"
  define U where "U = v\<^sup>2 / 2 ^ 80"
  have W0: "0 \<le> W" by (simp add: W_def)
  have "w\<^sup>2 \<le> (v / 2 ^ 40)\<^sup>2" using w(2,1) by (rule power_mono)
  also have "\<dots> = v\<^sup>2 / 2 ^ 80" by (simp add: power_divide)
  finally have WU: "W \<le> U" by (simp only: W_def U_def)
  have B0: "0 \<le> W * (1 + 1 / 2 ^ 53)" using W0 by simp
  have "real q * 2 powi g \<le> 2 * (W * (1 + 1 / 2 ^ 53))"
    using fin B0 le [folded W_def] by (rule small_double)
  also have "\<dots> \<le> 2 * (W * 2)" using W0 by (intro mult_left_mono) simp_all
  also have "\<dots> = 4 * W" by simp
  also have "\<dots> \<le> 4 * U" using WU by simp
  also have "\<dots> = v\<^sup>2 / 2 ^ 78" by (simp add: U_def)
  finally show ?thesis .
qed

lemma dominated_shrink:
  fixes v Y :: real
  assumes "Y \<le> v\<^sup>2 / 2 ^ 78"
  shows "Y \<le> v\<^sup>2 / 2 ^ 60"
proof -
  have "v\<^sup>2 / 2 ^ 78 \<le> v\<^sup>2 / 2 ^ 60" by (intro divide_left_mono) simp_all
  with assms show ?thesis by (rule order_trans)
qed

lemma dominated_sum:
  fixes v X Y T :: real
  assumes "0 \<le> X" and "0 \<le> Y" and "X \<le> v\<^sup>2 / 2 ^ 78" and "Y \<le> v\<^sup>2 / 2 ^ 78"
    and "T \<le> (X + Y) * (1 + 1 / 2 ^ 53)"
  shows "T \<le> v\<^sup>2 / 2 ^ 60"
proof -
  define U where "U = v\<^sup>2 / 2 ^ 78"
  have U0: "0 \<le> U" by (simp add: U_def)
  have "(X + Y) * (1 + 1 / 2 ^ 53) \<le> (X + Y) * 2"
    using assms(1,2) by (intro mult_left_mono) simp_all
  with assms(5) have "T \<le> 2 * X + 2 * Y" by simp
  moreover have "X \<le> U" and "Y \<le> U" using assms(3,4) by (simp_all only: U_def)
  ultimately have "T \<le> 4 * U" by linarith
  also have "\<dots> \<le> 2 ^ 18 * U" using U0 by (intro mult_right_mono) simp_all
  also have "\<dots> = v\<^sup>2 / 2 ^ 60" by (simp add: U_def)
  finally show ?thesis .
qed

lemma square_ge_least_normal:
  fixes a :: real
  assumes "2 powi (- 511) \<le> a"
  shows "2 powi (- 1075) \<le> a\<^sup>2 / 2 ^ 53"
proof -
  have "(2 powi (- 511))\<^sup>2 \<le> a\<^sup>2" using assms by (rule power_mono) simp
  moreover have "((2::real) powi (- 511))\<^sup>2 = 2 powi (- 1022)"
    using powi_double [of "- 511"] by simp
  moreover have "(2::real) powi (- 1022) = 2 ^ 53 * 2 powi (- 1075)"
    using powi_53 [of "- 1075"] by simp
  ultimately have "2 ^ 53 * 2 powi (- 1075) \<le> a\<^sup>2" by simp
  then show ?thesis by (simp add: field_simps)
qed

lemma norm2_le_norm1_core:
  assumes x: "is_finite (Finite sx mx ex)" and y: "is_finite (Finite sy my ey)"
    and z: "is_finite (Finite sz mz ez)"
    and rng: "(mx = 0 \<and> my = 0 \<and> mz = 0) \<or> 2 powi (- 511) \<le> real mx * 2 powi ex
                \<or> 2 powi (- 511) \<le> real my * 2 powi ey
                \<or> 2 powi (- 511) \<le> real mz * 2 powi ez"
    and X: "fmul (Finite sx mx ex) (Finite sx mx ex) = Finite False qX gX"
    and Y: "fmul (Finite sy my ey) (Finite sy my ey) = Finite False qY gY"
    and Z: "fmul (Finite sz mz ez) (Finite sz mz ez) = Finite False qZ gZ"
    and T: "fadd (Finite False qX gX) (Finite False qY gY) = Finite False qT gT"
    and S: "fadd (Finite False qT gT) (Finite False qZ gZ) = Finite False qS gS"
    and P: "fadd (Finite False mx ex) (Finite False my ey) = Finite False qP gP"
    and L: "fadd (Finite False qP gP) (Finite False mz ez) = Finite False qL gL"
  shows "\<exists>Q E. fsqrt (Finite False qS gS) = Finite False Q E
           \<and> real Q * 2 powi E \<le> real qL * 2 powi gL"
proof (cases "mx = 0 \<and> my = 0 \<and> mz = 0")
  case True
  then have "qX = 0" and "qY = 0" and "qZ = 0"
    using X Y Z by (simp_all add: round_double_def)
  then have "qT = 0" using T by (simp add: signed_def)
  then have "qS = 0" using S \<open>qZ = 0\<close> by (simp add: signed_def)
  then show ?thesis by simp
next
  case False
  let ?a = "real mx * 2 powi ex"
  let ?b = "real my * 2 powi ey"
  let ?c = "real mz * 2 powi ez"
  have nn: "0 \<le> ?a" "0 \<le> ?b" "0 \<le> ?c" by simp_all
  from rng False have some: "2 powi (- 511) \<le> ?a \<or> 2 powi (- 511) \<le> ?b \<or> 2 powi (- 511) \<le> ?c"
    by blast
  from x y z have ax: "is_finite (Finite False mx ex)" and ay: "is_finite (Finite False my ey)"
    and az: "is_finite (Finite False mz ez)"
    by (simp_all add: is_finite_def)
  note sx = square_abs_error [OF x X]
  note sy = square_abs_error [OF y Y]
  note sz = square_abs_error [OF z Z]
  note t = fadd_Finite_facts [OF sx(1) sy(1) T]
  note s = fadd_Finite_facts [OF t(1) sz(1) S]
  note p = fadd_Finite_facts [OF ax ay P]
  note l = fadd_Finite_facts [OF p(1) az L]
  have aL: "?a \<le> real qL * 2 powi gL" using p(2) l(2) by (rule order_trans)
  have bL: "?b \<le> real qL * 2 powi gL" using p(3) l(2) by (rule order_trans)
  have cL: "?c \<le> real qL * 2 powi gL" by (rule l(3))
  show ?thesis
  proof (cases "(?a\<^sup>2 + ?b\<^sup>2 + ?c\<^sup>2) / 2 ^ 42 \<le> ?a * ?b + ?b * ?c + ?c * ?a")
    case True
    have eta0: "0 \<le> (2::real) powi (- 1075)" by simp
    have eta: "2 powi (- 1075) \<le> (?a\<^sup>2 + ?b\<^sup>2 + ?c\<^sup>2) / 2 ^ 53"
    proof -
      have sq: "0 \<le> ?a\<^sup>2" "0 \<le> ?b\<^sup>2" "0 \<le> ?c\<^sup>2" by simp_all
      from some consider "2 powi (- 511) \<le> ?a" | "2 powi (- 511) \<le> ?b" | "2 powi (- 511) \<le> ?c"
        by blast
      then have "2 powi (- 1075) \<le> ?a\<^sup>2 / 2 ^ 53 \<or> 2 powi (- 1075) \<le> ?b\<^sup>2 / 2 ^ 53
                   \<or> 2 powi (- 1075) \<le> ?c\<^sup>2 / 2 ^ 53"
        using square_ge_least_normal by cases blast+
      moreover have "?a\<^sup>2 / 2 ^ 53 \<le> (?a\<^sup>2 + ?b\<^sup>2 + ?c\<^sup>2) / 2 ^ 53"
        using sq by (intro divide_right_mono) simp_all
      moreover have "?b\<^sup>2 / 2 ^ 53 \<le> (?a\<^sup>2 + ?b\<^sup>2 + ?c\<^sup>2) / 2 ^ 53"
        using sq by (intro divide_right_mono) simp_all
      moreover have "?c\<^sup>2 / 2 ^ 53 \<le> (?a\<^sup>2 + ?b\<^sup>2 + ?c\<^sup>2) / 2 ^ 53"
        using sq by (intro divide_right_mono) simp_all
      ultimately show ?thesis by (elim disjE) (erule order_trans, assumption)+
    qed
    have "real qS * 2 powi gS \<le> (real qL * 2 powi gL)\<^sup>2"
      by (rule chain_real [OF nn eta0 eta sx(2) sy(2) sz(2) t(4) s(4) p(5) l(5) True])
    then have "valof (Finite False qS gS) \<le> (valof (Finite False qL gL))\<^sup>2"
      by (simp only: valof_Finite if_False)
    from fsqrt_upper [OF l(1) this] show ?thesis by (simp only: valof_Finite if_False)
  next
    case False
    then have cr: "?a * ?b + ?b * ?c + ?c * ?a < (?a\<^sup>2 + ?b\<^sup>2 + ?c\<^sup>2) / 2 ^ 42"
      by (rule iffD1 [OF not_le])
    consider (first) "?b \<le> ?a" "?c \<le> ?a" | (second) "?a \<le> ?b" "?c \<le> ?b"
      | (third) "?a \<le> ?c" "?b \<le> ?c"
      by linarith
    then show ?thesis
    proof cases
      case first
      note dm = dominant_real [OF nn cr first]
      have big: "2 powi (- 511) \<le> ?a" using some first by linarith
      have smY: "real qY * 2 powi gY \<le> ?a\<^sup>2 / 2 ^ 60"
        by (rule dominated_shrink [OF dominated_square [OF sy(1) nn(2) dm(2) sy(2)]])
      have smZ: "real qZ * 2 powi gZ \<le> ?a\<^sup>2 / 2 ^ 60"
        by (rule dominated_shrink [OF dominated_square [OF sz(1) nn(3) dm(3) sz(2)]])
      from square_absorbs(1) [OF x big X sy(1) smY] T
      have eqT: "Finite False qT gT = Finite False qX gX" by simp
      from square_absorbs(1) [OF x big X sz(1) smZ] S [unfolded eqT]
      have eqS: "Finite False qS gS = Finite False qX gX" by simp
      from fsqrt_square_le [OF x big X]
      obtain Q E where "fsqrt (Finite False qX gX) = Finite False Q E"
        and "real Q * 2 powi E \<le> ?a"
        by blast
      then show ?thesis unfolding eqS using aL by (auto intro: order_trans)
    next
      case second
      note dm = dominant_real_2 [OF nn cr second]
      have big: "2 powi (- 511) \<le> ?b" using some second by linarith
      have smX: "real qX * 2 powi gX \<le> ?b\<^sup>2 / 2 ^ 60"
        by (rule dominated_shrink [OF dominated_square [OF sx(1) nn(1) dm(2) sx(2)]])
      have smZ: "real qZ * 2 powi gZ \<le> ?b\<^sup>2 / 2 ^ 60"
        by (rule dominated_shrink [OF dominated_square [OF sz(1) nn(3) dm(3) sz(2)]])
      from square_absorbs(2) [OF y big Y sx(1) smX] T
      have eqT: "Finite False qT gT = Finite False qY gY" by simp
      from square_absorbs(1) [OF y big Y sz(1) smZ] S [unfolded eqT]
      have eqS: "Finite False qS gS = Finite False qY gY" by simp
      from fsqrt_square_le [OF y big Y]
      obtain Q E where "fsqrt (Finite False qY gY) = Finite False Q E"
        and "real Q * 2 powi E \<le> ?b"
        by blast
      then show ?thesis unfolding eqS using bL by (auto intro: order_trans)
    next
      case third
      note dm = dominant_real_3 [OF nn cr third]
      have big: "2 powi (- 511) \<le> ?c" using some third by linarith
      have smX: "real qX * 2 powi gX \<le> ?c\<^sup>2 / 2 ^ 78"
        by (rule dominated_square [OF sx(1) nn(1) dm(2) sx(2)])
      have smY: "real qY * 2 powi gY \<le> ?c\<^sup>2 / 2 ^ 78"
        by (rule dominated_square [OF sy(1) nn(2) dm(3) sy(2)])
      have smT: "real qT * 2 powi gT \<le> ?c\<^sup>2 / 2 ^ 60"
        by (rule dominated_sum [OF _ _ smX smY t(4)]) simp_all
      from square_absorbs(2) [OF z big Z t(1) smT] S
      have eqS: "Finite False qS gS = Finite False qZ gZ" by simp
      from fsqrt_square_le [OF z big Z]
      obtain Q E where "fsqrt (Finite False qZ gZ) = Finite False Q E"
        and "real Q * 2 powi E \<le> ?c"
        by blast
      then show ?thesis unfolding eqS using cL by (auto intro: order_trans)
    qed
  qed
qed

lemma in_range_Finite:
  assumes "is_zero (Finite False m e) \<or> two_to_minus_511 \<le> Finite False m e"
  shows "m = 0 \<or> 2 powi (- 511) \<le> real m * 2 powi e"
proof -
  from assms have alt: "m = 0 \<or> Finite False (2 ^ 52) (- 563) \<le> Finite False m e"
    by (simp add: is_zero_def two_to_minus_511_def)
  have "(2::real) powi (- 563 + 52) = 2 ^ 52 * 2 powi (- 563)" by (rule powi_52)
  then have v: "valof (Finite False (2 ^ 52) (- 563)) = 2 powi (- 511)"
    by (simp add: valof_Finite)
  from alt show ?thesis
    unfolding fle_valof v by (simp add: valof_Finite)
qed

lemma fmul_self_result:
  "fmul (Finite s m e) (Finite s m e) = Infinity False
   \<or> (\<exists>q g. fmul (Finite s m e) (Finite s m e) = Finite False q g)"
  using round_double_sign [of False "m * m" "e + e" False] by simp

lemma fadd_result:
  "fadd (Finite False m e) (Finite False n f) = Infinity False
   \<or> (\<exists>q g. fadd (Finite False m e) (Finite False n f) = Finite False q g)"
  using fadd_Finite_value [of m e n f] round_double_sign [of False _ "min e f" False]
  by metis

lemma fsqrt_le_Infinity: "fsqrt (Finite False m e) \<le> Infinity False"
proof (cases "m = 0")
  case True
  then show ?thesis by (simp add: fle_Infinity)
next
  case False
  then have "0 < m" by simp
  from fsqrt_Finite_value [OF this, of e]
  obtain r er st where "fsqrt (Finite False m e) = round_double False r er st" by blast
  with round_double_sign [of False r er st] show ?thesis
    by (auto simp add: fle_Infinity less_eq_double_def fle_def)
qed

lemma Infinity_le_Infinity: "Infinity False \<le> Infinity False"
  by (simp add: less_eq_double_def fle_def)

lemma fadd_Infinity:
  assumes "is_nonneg y"
  shows "fadd (Infinity False) y = Infinity False" and "fadd y (Infinity False) = Infinity False"
  using assms by (cases y; simp add: is_nonneg_def)+

lemma fadd3_Infinity:
  assumes "is_nonneg A" and "is_nonneg B" and "is_nonneg C"
    and "A = Infinity False \<or> B = Infinity False \<or> C = Infinity False"
  shows "fadd (fadd A B) C = Infinity False"
proof -
  from assms(4) consider "A = Infinity False" | "B = Infinity False" | "C = Infinity False"
    by blast
  then show ?thesis
  proof cases
    case 1
    then have "fadd A B = Infinity False" using fadd_Infinity(1) [OF assms(2)] by simp
    then show ?thesis using fadd_Infinity(1) [OF assms(3)] by simp
  next
    case 2
    then have "fadd A B = Infinity False" using fadd_Infinity(2) [OF assms(1)] by simp
    then show ?thesis using fadd_Infinity(1) [OF assms(3)] by simp
  next
    case 3
    have "is_nonneg (fadd A B)" using assms(1,2) by (rule fadd_nonneg)
    then show ?thesis unfolding 3 by (rule fadd_Infinity(2))
  qed
qed

lemma std_max_Infinity:
  assumes "is_nonneg a" and "is_nonneg b" and "a = Infinity False \<or> b = Infinity False"
  shows "std_max a b = Infinity False"
  using assms
  by (cases a; cases b) (auto simp add: std_max_def less_double_def is_nonneg_def)

lemma std_max_nonneg: "is_nonneg a \<Longrightarrow> is_nonneg b \<Longrightarrow> is_nonneg (std_max a b)"
  by (simp add: std_max_def)

lemma fabs_number:
  assumes "\<not> is_nan c"
  shows "is_nonneg \<bar>c\<bar>" and "is_infinite c \<Longrightarrow> \<bar>c\<bar> = Infinity False"
  using assms by (cases c; simp add: abs_double_def is_nonneg_def is_nan_def is_infinite_def)+

lemma fmul_self_infinite: "is_infinite c \<Longrightarrow> fmul c c = Infinity False"
  by (cases c) (simp_all add: is_infinite_def)

lemma norms_infinite:
  assumes nf: "nan_free p"
    and inf: "is_infinite (elem0 (xyz p)) \<or> is_infinite (elem1 (xyz p))
                \<or> is_infinite (elem2 (xyz p))"
  shows "normInf p = Infinity False" and "norm2 p = Infinity False"
    and "norm1 p = Infinity False"
proof -
  define x where "x = elem0 (xyz p)"
  define y where "y = elem1 (xyz p)"
  define z where "z = elem2 (xyz p)"
  from nf have n: "\<not> is_nan x" "\<not> is_nan y" "\<not> is_nan z"
    by (simp_all add: nan_free_def x_def y_def z_def)
  from inf have i: "is_infinite x \<or> is_infinite y \<or> is_infinite z"
    by (simp add: x_def y_def z_def)
  note ax = fabs_number [OF n(1)] and ay = fabs_number [OF n(2)] and az = fabs_number [OF n(3)]
  have ai: "\<bar>x\<bar> = Infinity False \<or> \<bar>y\<bar> = Infinity False \<or> \<bar>z\<bar> = Infinity False"
    using i ax(2) ay(2) az(2) by blast
  have si: "fmul x x = Infinity False \<or> fmul y y = Infinity False \<or> fmul z z = Infinity False"
    using i fmul_self_infinite by blast
  have "norm1 p = fadd (fadd \<bar>x\<bar> \<bar>y\<bar>) \<bar>z\<bar>"
    by (simp add: norm1_def plus_double_def x_def y_def z_def)
  then show "norm1 p = Infinity False"
    using fadd3_Infinity [OF ax(1) ay(1) az(1) ai] by simp
  have "norm2 p = fsqrt (fadd (fadd (fmul x x) (fmul y y)) (fmul z z))"
    by (simp add: norm2_def plus_double_def times_double_def x_def y_def z_def)
  moreover have "fadd (fadd (fmul x x) (fmul y y)) (fmul z z) = Infinity False"
    using n si by (intro fadd3_Infinity fmul_self_nonneg)
  ultimately show "norm2 p = Infinity False" by simp
  have "normInf p = std_max \<bar>x\<bar> (std_max \<bar>y\<bar> \<bar>z\<bar>)"
    by (simp add: normInf_def x_def y_def z_def)
  moreover have "std_max \<bar>x\<bar> (std_max \<bar>y\<bar> \<bar>z\<bar>) = Infinity False"
  proof (cases "\<bar>x\<bar> = Infinity False")
    case True
    then show ?thesis
      using std_max_Infinity [OF ax(1) std_max_nonneg [OF ay(1) az(1)]] by blast
  next
    case False
    then have "std_max \<bar>y\<bar> \<bar>z\<bar> = Infinity False"
      using ai std_max_Infinity [OF ay(1) az(1)] by blast
    then show ?thesis
      using std_max_Infinity [OF ax(1) std_max_nonneg [OF ay(1) az(1)]] by blast
  qed
  ultimately show "normInf p = Infinity False" by simp
qed

lemma sum_squares_cases:
  "fadd (fadd (fmul (Finite sx mx ex) (Finite sx mx ex)) (fmul (Finite sy my ey) (Finite sy my ey)))
        (fmul (Finite sz mz ez) (Finite sz mz ez)) = Infinity False
   \<or> (\<exists>qX gX qY gY qZ gZ qT gT qS gS.
         fmul (Finite sx mx ex) (Finite sx mx ex) = Finite False qX gX
         \<and> fmul (Finite sy my ey) (Finite sy my ey) = Finite False qY gY
         \<and> fmul (Finite sz mz ez) (Finite sz mz ez) = Finite False qZ gZ
         \<and> fadd (Finite False qX gX) (Finite False qY gY) = Finite False qT gT
         \<and> fadd (Finite False qT gT) (Finite False qZ gZ) = Finite False qS gS)"
proof -
  define X where "X = fmul (Finite sx mx ex) (Finite sx mx ex)"
  define Y where "Y = fmul (Finite sy my ey) (Finite sy my ey)"
  define Z where "Z = fmul (Finite sz mz ez) (Finite sz mz ez)"
  have nn: "is_nonneg X" "is_nonneg Y" "is_nonneg Z"
    unfolding X_def Y_def Z_def by (intro fmul_self_nonneg; simp add: is_nan_def)+
  have goal: "fadd (fadd X Y) Z = Infinity False
     \<or> (\<exists>qX gX qY gY qZ gZ qT gT qS gS.
         X = Finite False qX gX \<and> Y = Finite False qY gY \<and> Z = Finite False qZ gZ
         \<and> fadd (Finite False qX gX) (Finite False qY gY) = Finite False qT gT
         \<and> fadd (Finite False qT gT) (Finite False qZ gZ) = Finite False qS gS)"
  proof (cases "X = Infinity False \<or> Y = Infinity False \<or> Z = Infinity False")
    case True
    with nn have "fadd (fadd X Y) Z = Infinity False" by (rule fadd3_Infinity)
    then show ?thesis ..
  next
    case False
    then obtain qX gX qY gY qZ gZ where X: "X = Finite False qX gX"
      and Y: "Y = Finite False qY gY" and Z: "Z = Finite False qZ gZ"
      using fmul_self_result [of sx mx ex] fmul_self_result [of sy my ey]
        fmul_self_result [of sz mz ez]
      unfolding X_def Y_def Z_def by auto
    from fadd_result [of qX gX qY gY] show ?thesis
    proof
      assume inf: "fadd (Finite False qX gX) (Finite False qY gY) = Infinity False"
      have "fadd (fadd X Y) Z = fadd (Infinity False) (Finite False qZ gZ)"
        unfolding X Y Z inf ..
      then have "fadd (fadd X Y) Z = Infinity False" by simp
      then show ?thesis ..
    next
      assume "\<exists>q g. fadd (Finite False qX gX) (Finite False qY gY) = Finite False q g"
      then obtain qT gT where T: "fadd (Finite False qX gX) (Finite False qY gY) = Finite False qT gT"
        by blast
      from fadd_result [of qT gT qZ gZ] show ?thesis
      proof
        assume inf: "fadd (Finite False qT gT) (Finite False qZ gZ) = Infinity False"
        have "fadd (fadd X Y) Z = Infinity False" unfolding X Y Z T inf ..
        then show ?thesis ..
      next
        assume "\<exists>q g. fadd (Finite False qT gT) (Finite False qZ gZ) = Finite False q g"
        then show ?thesis using X Y Z T by blast
      qed
    qed
  qed
  then show ?thesis unfolding X_def Y_def Z_def .
qed

lemma coord_le_norm2_aux:
  assumes c: "is_finite (Finite s m e)"
    and rng: "m = 0 \<or> 2 powi (- 511) \<le> real m * 2 powi e"
    and r: "fmul (Finite s m e) (Finite s m e) = Finite False q g"
    and S: "real q * 2 powi g \<le> real mS * 2 powi eS"
  shows "Finite False m e \<le> fsqrt (Finite False mS eS)"
  using coord_le_fsqrt [OF c rng r S]
  by (auto simp add: fle_Infinity fle_valof valof_Finite)

lemma std_max_Finite:
  "std_max (Finite s m e) (Finite t n f) = Finite s m e
     \<and> valof (Finite t n f) \<le> valof (Finite s m e)
   \<or> std_max (Finite s m e) (Finite t n f) = Finite t n f
     \<and> valof (Finite s m e) \<le> valof (Finite t n f)"
  unfolding std_max_def less_double_def flt_valof by auto

lemma std_max3_Finite:
  "\<exists>m e. std_max (Finite False mx ex) (std_max (Finite False my ey) (Finite False mz ez))
            = Finite False m e
         \<and> (m = mx \<and> e = ex \<or> m = my \<and> e = ey \<or> m = mz \<and> e = ez)
         \<and> real mx * 2 powi ex \<le> real m * 2 powi e
         \<and> real my * 2 powi ey \<le> real m * 2 powi e
         \<and> real mz * 2 powi ez \<le> real m * 2 powi e"
proof -
  from std_max_Finite [of False my ey False mz ez]
  obtain n f where in1: "std_max (Finite False my ey) (Finite False mz ez) = Finite False n f"
    and w1: "n = my \<and> f = ey \<or> n = mz \<and> f = ez"
    and y: "real my * 2 powi ey \<le> real n * 2 powi f"
    and z: "real mz * 2 powi ez \<le> real n * 2 powi f"
    by (auto simp add: valof_Finite)
  from std_max_Finite [of False mx ex False n f]
  obtain m e where in2: "std_max (Finite False mx ex) (Finite False n f) = Finite False m e"
    and w2: "m = mx \<and> e = ex \<or> m = n \<and> e = f"
    and x: "real mx * 2 powi ex \<le> real m * 2 powi e"
    and nf: "real n * 2 powi f \<le> real m * 2 powi e"
    by (auto simp add: valof_Finite)
  have "real my * 2 powi ey \<le> real m * 2 powi e" using y nf by (rule order_trans)
  moreover have "real mz * 2 powi ez \<le> real m * 2 powi e" using z nf by (rule order_trans)
  moreover have "m = mx \<and> e = ex \<or> m = my \<and> e = ey \<or> m = mz \<and> e = ez"
    using w1 w2 by blast
  ultimately show ?thesis using in1 in2 x by simp
qed

lemma nonneg_le_Infinity: "is_nonneg v \<Longrightarrow> v \<le> Infinity False"
  by (cases v) (simp_all add: is_nonneg_def less_eq_double_def fle_def)

lemma real_scaled_zero: "real m * 2 powi e \<le> 0 \<Longrightarrow> m = 0"
proof -
  assume "real m * 2 powi e \<le> 0"
  moreover have "0 \<le> real m * 2 powi e" by simp
  ultimately have "real m * 2 powi e = 0" by (rule antisym)
  then show "m = 0" by simp
qed

lemma norm_chain_finite:
  assumes x: "elem0 (xyz p) = Finite sx mx ex" and fx: "is_finite (Finite sx mx ex)"
    and y: "elem1 (xyz p) = Finite sy my ey" and fy: "is_finite (Finite sy my ey)"
    and z: "elem2 (xyz p) = Finite sz mz ez" and fz: "is_finite (Finite sz mz ez)"
    and rng: "is_zero (normInf p) \<or> two_to_minus_511 \<le> normInf p"
  shows "normInf p \<le> norm2 p"
    and "no_overflow p \<Longrightarrow> norm2 p \<le> norm1 p"
proof -
  have ni: "normInf p
              = std_max (Finite False mx ex) (std_max (Finite False my ey) (Finite False mz ez))"
    by (simp add: normInf_def x y z abs_double_def)
  have n2: "norm2 p
              = fsqrt (fadd (fadd (fmul (Finite sx mx ex) (Finite sx mx ex))
                                  (fmul (Finite sy my ey) (Finite sy my ey)))
                            (fmul (Finite sz mz ez) (Finite sz mz ez)))"
    by (simp add: norm2_def x y z plus_double_def times_double_def)
  have n1: "norm1 p
              = fadd (fadd (Finite False mx ex) (Finite False my ey)) (Finite False mz ez)"
    by (simp add: norm1_def x y z plus_double_def abs_double_def)
  from std_max3_Finite [of mx ex my ey mz ez]
  obtain m e where I: "normInf p = Finite False m e"
    and which: "m = mx \<and> e = ex \<or> m = my \<and> e = ey \<or> m = mz \<and> e = ez"
    and mx: "real mx * 2 powi ex \<le> real m * 2 powi e"
    and my: "real my * 2 powi ey \<le> real m * 2 powi e"
    and mz: "real mz * 2 powi ez \<le> real m * 2 powi e"
    unfolding ni by blast
  have r: "m = 0 \<or> 2 powi (- 511) \<le> real m * 2 powi e"
    using rng unfolding I by (rule in_range_Finite)
  show "normInf p \<le> norm2 p"
    using sum_squares_cases [of sx mx ex sy my ey sz mz ez]
  proof
    assume "fadd (fadd (fmul (Finite sx mx ex) (Finite sx mx ex))
                       (fmul (Finite sy my ey) (Finite sy my ey)))
                 (fmul (Finite sz mz ez) (Finite sz mz ez)) = Infinity False"
    then have "norm2 p = Infinity False" unfolding n2 by simp
    then show ?thesis unfolding I by (simp add: fle_Infinity)
  next
    assume "\<exists>qX gX qY gY qZ gZ qT gT qS gS.
         fmul (Finite sx mx ex) (Finite sx mx ex) = Finite False qX gX
         \<and> fmul (Finite sy my ey) (Finite sy my ey) = Finite False qY gY
         \<and> fmul (Finite sz mz ez) (Finite sz mz ez) = Finite False qZ gZ
         \<and> fadd (Finite False qX gX) (Finite False qY gY) = Finite False qT gT
         \<and> fadd (Finite False qT gT) (Finite False qZ gZ) = Finite False qS gS"
    then obtain qX gX qY gY qZ gZ qT gT qS gS
      where X: "fmul (Finite sx mx ex) (Finite sx mx ex) = Finite False qX gX"
        and Y: "fmul (Finite sy my ey) (Finite sy my ey) = Finite False qY gY"
        and Z: "fmul (Finite sz mz ez) (Finite sz mz ez) = Finite False qZ gZ"
        and T: "fadd (Finite False qX gX) (Finite False qY gY) = Finite False qT gT"
        and S: "fadd (Finite False qT gT) (Finite False qZ gZ) = Finite False qS gS"
      by blast
    have n2': "norm2 p = fsqrt (Finite False qS gS)" unfolding n2 X Y Z T S ..
    note sx = square_abs_error(1) [OF fx X] and sy = square_abs_error(1) [OF fy Y]
      and sz = square_abs_error(1) [OF fz Z]
    note t = fadd_Finite_facts [OF sx sy T]
    note s = fadd_Finite_facts [OF t(1) sz S]
    have XS: "real qX * 2 powi gX \<le> real qS * 2 powi gS" using t(2) s(2) by (rule order_trans)
    have YS: "real qY * 2 powi gY \<le> real qS * 2 powi gS" using t(3) s(2) by (rule order_trans)
    have ZS: "real qZ * 2 powi gZ \<le> real qS * 2 powi gS" by (rule s(3))
    from which show ?thesis
    proof (elim disjE conjE)
      assume eq: "m = mx" "e = ex"
      from r have "mx = 0 \<or> 2 powi (- 511) \<le> real mx * 2 powi ex" unfolding eq .
      from coord_le_norm2_aux [OF fx this X XS] show ?thesis unfolding I n2' eq .
    next
      assume eq: "m = my" "e = ey"
      from r have "my = 0 \<or> 2 powi (- 511) \<le> real my * 2 powi ey" unfolding eq .
      from coord_le_norm2_aux [OF fy this Y YS] show ?thesis unfolding I n2' eq .
    next
      assume eq: "m = mz" "e = ez"
      from r have "mz = 0 \<or> 2 powi (- 511) \<le> real mz * 2 powi ez" unfolding eq .
      from coord_le_norm2_aux [OF fz this Z ZS] show ?thesis unfolding I n2' eq .
    qed
  qed
  show "norm2 p \<le> norm1 p" if ov: "no_overflow p"
  proof (cases "is_infinite (norm1 p)")
    case True
    have "is_nonneg (norm1 p)"
      unfolding n1 by (intro fadd_nonneg) (simp_all add: is_nonneg_def)
    with True have "norm1 p = Infinity False"
      by (cases "norm1 p") (simp_all add: is_infinite_def is_nonneg_def)
    moreover have "nan_free p" by (simp add: nan_free_def x y z is_nan_def)
    then have "is_nonneg (norm2 p)" by (rule norm2_nonneg)
    ultimately show ?thesis by (simp add: nonneg_le_Infinity)
  next
    case False
    with ov have Sfin: "is_finite (fadd (fadd (fmul (Finite sx mx ex) (Finite sx mx ex))
                                  (fmul (Finite sy my ey) (Finite sy my ey)))
                            (fmul (Finite sz mz ez) (Finite sz mz ez)))"
      by (simp add: no_overflow_def x y z plus_double_def times_double_def)
    from sum_squares_cases [of sx mx ex sy my ey sz mz ez] Sfin
    obtain qX gX qY gY qZ gZ qT gT qS gS
      where X: "fmul (Finite sx mx ex) (Finite sx mx ex) = Finite False qX gX"
        and Y: "fmul (Finite sy my ey) (Finite sy my ey) = Finite False qY gY"
        and Z: "fmul (Finite sz mz ez) (Finite sz mz ez) = Finite False qZ gZ"
        and T: "fadd (Finite False qX gX) (Finite False qY gY) = Finite False qT gT"
        and S: "fadd (Finite False qT gT) (Finite False qZ gZ) = Finite False qS gS"
      by (auto simp add: is_finite_def)
    have n2': "norm2 p = fsqrt (Finite False qS gS)" unfolding n2 X Y Z T S ..
    from fadd_result [of mx ex my ey]
    obtain qP gP where P: "fadd (Finite False mx ex) (Finite False my ey) = Finite False qP gP"
    proof
      assume "fadd (Finite False mx ex) (Finite False my ey) = Infinity False"
      then have "norm1 p = Infinity False" unfolding n1 by simp
      with False have False by (simp add: is_infinite_def)
      then show thesis ..
    next
      assume "\<exists>q g. fadd (Finite False mx ex) (Finite False my ey) = Finite False q g"
      then show thesis using that by blast
    qed
    from fadd_result [of qP gP mz ez]
    obtain qL gL where L: "fadd (Finite False qP gP) (Finite False mz ez) = Finite False qL gL"
    proof
      assume "fadd (Finite False qP gP) (Finite False mz ez) = Infinity False"
      then have "norm1 p = Infinity False" unfolding n1 P by simp
      with False have False by (simp add: is_infinite_def)
      then show thesis ..
    next
      assume "\<exists>q g. fadd (Finite False qP gP) (Finite False mz ez) = Finite False q g"
      then show thesis using that by blast
    qed
    have n1': "norm1 p = Finite False qL gL" unfolding n1 P L ..
    have core: "(mx = 0 \<and> my = 0 \<and> mz = 0) \<or> 2 powi (- 511) \<le> real mx * 2 powi ex
                \<or> 2 powi (- 511) \<le> real my * 2 powi ey
                \<or> 2 powi (- 511) \<le> real mz * 2 powi ez"
    proof (cases "m = 0")
      case True
      then have "real mx * 2 powi ex \<le> 0" and "real my * 2 powi ey \<le> 0"
        and "real mz * 2 powi ez \<le> 0"
        using mx my mz by simp_all
      then have "mx = 0 \<and> my = 0 \<and> mz = 0" using real_scaled_zero by blast
      then show ?thesis ..
    next
      case False
      then have "2 powi (- 511) \<le> real m * 2 powi e" using r by simp
      then show ?thesis using which by auto
    qed
    from norm2_le_norm1_core [OF fx fy fz core X Y Z T S P L]
    obtain Q E where "fsqrt (Finite False qS gS) = Finite False Q E"
      and "real Q * 2 powi E \<le> real qL * 2 powi gL"
      by blast
    then show ?thesis unfolding n2' n1' by (simp add: fle_valof valof_Finite)
  qed
qed

lemma is_number_cases:
  assumes "is_number c"
  obtains (infinite) "is_infinite c" | (finite) s m e where "c = Finite s m e" "is_finite c"
  using assms by (cases c) (auto simp add: is_number_def is_finite_def is_infinite_def)

lemma number_coords_nan_free: "number_coords p \<Longrightarrow> nan_free p"
proof -
  have "is_number c \<Longrightarrow> \<not> is_nan c" for c
    by (cases c) (simp_all add: is_number_def is_finite_def is_infinite_def is_nan_def)
  then show "number_coords p \<Longrightarrow> nan_free p"
    by (simp add: number_coords_def nan_free_def)
qed

lemma norm_chain:
  assumes nu: "no_underflow p"
  shows "normInf p \<le> norm2 p" and "no_overflow p \<Longrightarrow> norm2 p \<le> norm1 p"
proof -
  from nu have num: "is_number (elem0 (xyz p))" "is_number (elem1 (xyz p))"
      "is_number (elem2 (xyz p))"
    and rng: "is_zero (normInf p) \<or> two_to_minus_511 \<le> normInf p"
    by (simp_all add: no_underflow_def number_coords_def)
  from nu have nf: "nan_free p" by (simp add: no_underflow_def number_coords_nan_free)
  have "normInf p \<le> norm2 p \<and> (no_overflow p \<longrightarrow> norm2 p \<le> norm1 p)"
  proof (cases "is_infinite (elem0 (xyz p)) \<or> is_infinite (elem1 (xyz p))
                  \<or> is_infinite (elem2 (xyz p))")
    case True
    note inf = norms_infinite [OF nf True]
    show ?thesis unfolding inf by (simp add: Infinity_le_Infinity)
  next
    case False
    with num obtain sx mx ex sy my ey sz mz ez
      where x: "elem0 (xyz p) = Finite sx mx ex" "is_finite (elem0 (xyz p))"
        and y: "elem1 (xyz p) = Finite sy my ey" "is_finite (elem1 (xyz p))"
        and z: "elem2 (xyz p) = Finite sz mz ez" "is_finite (elem2 (xyz p))"
      by (metis is_number_cases)
    note fin = norm_chain_finite [OF x(1) x(2) [unfolded x(1)] y(1) y(2) [unfolded y(1)]
        z(1) z(2) [unfolded z(1)] rng]
    show ?thesis using fin by blast
  qed
  then show "normInf p \<le> norm2 p" and "no_overflow p \<Longrightarrow> norm2 p \<le> norm1 p" by blast+
qed

lemma point_3_4_0_no_underflow:
  "no_underflow (Point_coords (double_of_nat 3) (double_of_nat 4) 0)"
proof -
  have a3: "\<bar>double_of_nat 3\<bar> = double_of_nat 3"
    by (simp add: double_of_nat_3 fabs_nonneg_eval)
  have a4: "\<bar>double_of_nat 4\<bar> = double_of_nat 4"
    by (simp add: double_of_nat_4 fabs_nonneg_eval)
  have z: "\<bar>0::double\<bar> = 0" by (simp add: abs_double_def zero_double_def)
  have lt40: "\<not> double_of_nat 4 < 0"
    by (simp add: less_double_def double_of_nat_4 zero_double_def signed_def emin_def)
  have lt34: "double_of_nat 3 < double_of_nat 4"
    by (simp add: less_double_def double_of_nat_3 double_of_nat_4 signed_def)
  have ni: "normInf (Point_coords (double_of_nat 3) (double_of_nat 4) 0) = double_of_nat 4"
    by (simp add: normInf_def Point_coords_def a3 a4 z std_max_def lt40 lt34)
  have big: "two_to_minus_511 \<le> double_of_nat 4"
    by (simp add: less_eq_double_def fle_def two_to_minus_511_def double_of_nat_4 signed_def)
  have num: "number_coords (Point_coords (double_of_nat 3) (double_of_nat 4) 0)"
    by (simp add: number_coords_def is_number_def Point_coords_def double_of_nat_3
          double_of_nat_4 zero_double_def is_finite_def emin_def emax_def)
  show ?thesis unfolding no_underflow_def ni using num big by simp
qed

lemma point_3_4_0_no_overflow:
  "no_overflow (Point_coords (double_of_nat 3) (double_of_nat 4) 0)"
proof -
  have s25: "Finite False (25 * 2 ^ 48) (- 48) + 0 = Finite False (25 * 2 ^ 48) (- 48)"
    by (rule fadd_zero_right_eval) (simp_all add: is_finite_def is_zero_def emin_def emax_def)
  have zz: "(0::double) * 0 = 0" by (simp add: times_double_def fmul_zero_zero)
  have f25: "is_finite (Finite False (25 * 2 ^ 48) (- 48))"
    by (simp add: is_finite_def emin_def emax_def)
  show ?thesis
    unfolding no_overflow_def Point_coords_def Point.select_convs array3.sel
      fmul_3_3 fmul_4_4 zz fadd_9_16 s25
    using f25 by simp
qed

text \<open>The scenario \<open>Point(3,4,0).norm2() == 5.0\<close>: the sum of squares is 25, and the rounded
  square root of 25 lies neither below nor above 5.\<close>

lemma norm2_3_4_0: "feq (norm2 (Point_coords (double_of_nat 3) (double_of_nat 4) 0)) (double_of_nat 5)"
proof -
  have five: "double_of_nat 5 = Finite False (5 * 2 ^ 50) (- 50)"
  proof -
    have "bitlen 5 = Suc 2" by (rule bitlen_eqI) simp_all
    then show ?thesis by (simp add: double_eval)
  qed
  have fin5: "is_finite (Finite False (5 * 2 ^ 50) (- 50))"
    by (simp add: is_finite_def emin_def emax_def)
  have v5: "valof (Finite False (5 * 2 ^ 50) (- 50)) = 5" by (simp add: valof_Finite)
  have v25: "valof (Finite False (25 * 2 ^ 48) (- 48)) = 25" by (simp add: valof_Finite)
  have s25: "Finite False (25 * 2 ^ 48) (- 48) + 0 = Finite False (25 * 2 ^ 48) (- 48)"
    by (rule fadd_zero_right_eval) (simp_all add: is_finite_def is_zero_def emin_def emax_def)
  have zz: "(0::double) * 0 = 0" by (simp add: times_double_def fmul_zero_zero)
  have n2: "norm2 (Point_coords (double_of_nat 3) (double_of_nat 4) 0)
              = fsqrt (Finite False (25 * 2 ^ 48) (- 48))"
    unfolding norm2_def Point_coords_def Point.select_convs array3.sel
      fmul_3_3 fmul_4_4 zz fadd_9_16 s25 ..
  have le: "(valof (Finite False (5 * 2 ^ 50) (- 50)))\<^sup>2
              \<le> valof (Finite False (25 * 2 ^ 48) (- 48))"
    unfolding v5 v25 by simp
  have ge: "valof (Finite False (25 * 2 ^ 48) (- 48))
              \<le> (valof (Finite False (5 * 2 ^ 50) (- 50)))\<^sup>2"
    unfolding v5 v25 by simp
  from fsqrt_upper [OF fin5 ge]
  obtain q f where r: "fsqrt (Finite False (25 * 2 ^ 48) (- 48)) = Finite False q f"
    and up: "valof (Finite False q f) \<le> valof (Finite False (5 * 2 ^ 50) (- 50))"
    by blast
  from fsqrt_lower [OF fin5 le] r
  have lo: "valof (Finite False (5 * 2 ^ 50) (- 50)) \<le> valof (Finite False q f)"
    by simp
  from lo up have "valof (Finite False q f) = valof (Finite False (5 * 2 ^ 50) (- 50))"
    by (rule antisym [rotated])
  then show ?thesis unfolding n2 r five by (simp only: feq_valof)
qed

text \<open>
  C4 (as amended). \<open>norm2(p) >= 0\<close> for every point \<open>p\<close> none of whose coordinates is NaN;
  \<open>norm2(zero) == 0\<close>, exactly; \<open>normInf(p) <= norm2(p)\<close> for every point none of whose
  coordinates is NaN and whose largest coordinate magnitude is zero or at least \<open>2^-511\<close> (the
  square of the largest coordinate does not underflow); and \<open>norm2(p) <= norm1(p)\<close> for every
  such point whose sum of squares does not overflow (it is finite, or \<open>norm1(p)\<close> is infinite
  as well). Infinite coordinates, rounded products and sums, and smaller coordinates whose
  squares underflow are all covered.
\<close>

theorem norm_properties:
  "(nan_free p \<longrightarrow> 0 \<le> norm2 p)
   \<and> norm2 Point_default = 0
   \<and> feq (norm2 Point_default) 0
   \<and> (no_underflow p \<longrightarrow> normInf p \<le> norm2 p)
   \<and> (no_underflow p \<and> no_overflow p \<longrightarrow> norm2 p \<le> norm1 p)"
proof (intro conjI impI)
  assume "nan_free p"
  then show "0 \<le> norm2 p" by (intro zero_le_nonneg norm2_nonneg)
next
  show "norm2 Point_default = 0" by (rule norm2_zero)
  show "feq (norm2 Point_default) 0"
    unfolding norm2_zero using feq_refl is_finite_zero by blast
next
  assume "no_underflow p"
  then show "normInf p \<le> norm2 p" by (rule norm_chain(1))
next
  assume "no_underflow p \<and> no_overflow p"
  then show "norm2 p \<le> norm1 p" using norm_chain(2) by blast
qed

text \<open>The point \<open>(3, 4, 0)\<close>: its largest coordinate magnitude is 4, its sum of squares is 25,
  and its norms 4, 5, 7 are in order.\<close>

theorem norm_properties_witness:
  "nan_free (Point_coords (double_of_nat 3) (double_of_nat 4) 0)
   \<and> no_underflow (Point_coords (double_of_nat 3) (double_of_nat 4) 0)
   \<and> no_overflow (Point_coords (double_of_nat 3) (double_of_nat 4) 0)
   \<and> 0 \<le> norm2 (Point_coords (double_of_nat 3) (double_of_nat 4) 0)
   \<and> normInf (Point_coords (double_of_nat 3) (double_of_nat 4) 0)
        \<le> norm2 (Point_coords (double_of_nat 3) (double_of_nat 4) 0)
   \<and> norm2 (Point_coords (double_of_nat 3) (double_of_nat 4) 0)
        \<le> norm1 (Point_coords (double_of_nat 3) (double_of_nat 4) 0)"
proof -
  have nf: "nan_free (Point_coords (double_of_nat 3) (double_of_nat 4) 0)"
    by (simp add: nan_free_def Point_coords_def double_of_nat_3 double_of_nat_4
          zero_double_def is_nan_def)
  note nu = point_3_4_0_no_underflow
  note no = point_3_4_0_no_overflow
  show ?thesis
    using norm_properties [of "Point_coords (double_of_nat 3) (double_of_nat 4) 0"] nf nu no
    by blast
qed

text \<open>
  For all points the claim fails. The square of \<open>2^600\<close> overflows: \<open>norm2\<close> of
  \<open>(2^600, 0, 0)\<close> is \<open>+infinity\<close>, above its \<open>norm1\<close>, which is \<open>2^600\<close>. The square of
  \<open>2^-600\<close> underflows: \<open>norm2\<close> of \<open>(2^-600, 0, 0)\<close> is 0, below its \<open>normInf\<close>, which is
  \<open>2^-600\<close>. And \<open>norm2\<close> of \<open>(NaN, 0, 0)\<close> is NaN, for which \<open>>= 0\<close> is false.
\<close>

theorem norm_chain_counterexample:
  "norm2 (Point_coords two_to_600 0 0) = Infinity False
   \<and> norm1 (Point_coords two_to_600 0 0) = two_to_600
   \<and> \<not> norm2 (Point_coords two_to_600 0 0) \<le> norm1 (Point_coords two_to_600 0 0)
   \<and> norm2 (Point_coords two_to_minus_600 0 0) = 0
   \<and> normInf (Point_coords two_to_minus_600 0 0) = two_to_minus_600
   \<and> \<not> normInf (Point_coords two_to_minus_600 0 0) \<le> norm2 (Point_coords two_to_minus_600 0 0)
   \<and> norm2 (Point_coords NaN 0 0) = NaN
   \<and> \<not> 0 \<le> norm2 (Point_coords NaN 0 0)"
proof -
  have "\<not> Infinity False \<le> two_to_600"
    by (simp add: less_eq_double_def fle_def two_to_600_def)
  moreover have "\<not> two_to_minus_600 \<le> 0"
    by (simp add: less_eq_double_def fle_def two_to_minus_600_def zero_double_def signed_def
          emin_def)
  moreover have "norm2 (Point_coords NaN 0 0) = NaN"
    by (simp add: norm2_def Point_coords_def plus_double_def times_double_def)
  moreover have "\<not> 0 \<le> NaN"
    by (simp add: less_eq_double_def fle_def zero_double_def)
  ultimately show ?thesis
    by (simp add: norm2_overflow norm1_big norm2_underflow normInf_tiny)
qed


text \<open>Read with \<open>==\<close> on the coordinates, the two are equal unless the difference has a NaN
  coordinate, which equals nothing, itself included.\<close>

lemma feq_same: "\<not> is_nan x \<Longrightarrow> feq x x"
  by (cases x) (simp_all add: is_nan_def)

lemma Point_vector_eq_difference:
  "nan_free (operator_minus b a) \<Longrightarrow> Point_eq (Point_vector a b) (operator_minus b a)"
  by (simp add: nan_free_def Point_eq_def Point_vector_def operator_minus_def Point_coords_def
        feq_same)

lemma fdiv_by_zero: "is_zero d \<Longrightarrow> is_infinite (fdiv x d) \<or> is_nan (fdiv x d)"
  by (cases x; cases d) (simp_all add: is_zero_def is_infinite_def is_nan_def)

lemma fdiv_one_zero: "fdiv 1 0 = Infinity False"
  by (simp add: one_double_def zero_double_def)

text \<open>
  C6. \<open>(p * d)[i] = p[i] * d\<close> and \<open>(p / d)[i] = p[i] / d\<close> for each coordinate. Neither
  operator has an error result or tests its divisor: when \<open>d\<close> is a zero, every coordinate
  of \<open>p / d\<close> is an infinity or NaN, as double division gives.
\<close>

theorem scalar_multiply_divide:
  "get3 (xyz (operator_times p d)) i = get3 (xyz p) i * d
   \<and> get3 (xyz (operator_divide p d)) i = get3 (xyz p) i / d
   \<and> (is_zero d \<longrightarrow>
        is_infinite (get3 (xyz (operator_divide p d)) i)
          \<or> is_nan (get3 (xyz (operator_divide p d)) i))"
proof -
  have mul: "get3 (xyz (operator_times p d)) i = get3 (xyz p) i * d"
    by (cases i) (simp_all add: operator_times_def Point_coords_def)
  have quot: "get3 (xyz (operator_divide p d)) i = get3 (xyz p) i / d"
    by (cases i) (simp_all add: operator_divide_def Point_coords_def)
  show ?thesis
    unfolding quot using mul fdiv_by_zero [of d "get3 (xyz p) i"]
    by (simp add: divide_double_def)
qed

text \<open>Dividing \<open>(1, 0, 0)\<close> by zero: the first coordinate becomes \<open>+infinity\<close>.\<close>

theorem scalar_multiply_divide_witness:
  "is_zero 0
   \<and> get3 (xyz (operator_divide (Point_coords 1 0 0) 0)) I0 = Infinity False
   \<and> (is_infinite (get3 (xyz (operator_divide (Point_coords 1 0 0) 0)) I0)
        \<or> is_nan (get3 (xyz (operator_divide (Point_coords 1 0 0) 0)) I0))"
proof -
  have z: "is_zero 0"
    by (simp add: is_finite_zero)
  have v: "get3 (xyz (operator_divide (Point_coords 1 0 0) 0)) I0 = Infinity False"
    by (simp add: operator_divide_def Point_coords_def divide_double_def fdiv_one_zero)
  show ?thesis
    using scalar_multiply_divide [of "Point_coords 1 0 0" 0 I0] z v by blast
qed

lemma feq_add_zero:
  assumes "is_number x"
  shows "feq (x + 0) x"
proof (cases "is_finite x")
  case True
  note zero = is_finite_zero [THEN conjunct1] is_finite_zero [THEN conjunct2]
  have "fadd x 0 = x \<or> (is_zero x \<and> is_finite (fadd x 0) \<and> is_zero (fadd x 0))"
    using keeps_add_zero [OF True _ zero, of x] by simp
  then show ?thesis
    unfolding plus_double_def using keeps_feq [OF True] by blast
next
  case False
  with assms obtain s where "x = Infinity s"
    by (cases x) (simp_all add: is_number_def is_infinite_def)
  then show ?thesis
    by (simp add: plus_double_def zero_double_def)
qed

lemma feq_sub_self:
  assumes "is_finite x"
  shows "feq (x - x) 0"
  unfolding minus_double_def fsub_self [OF assms]
  using feq_refl is_finite_zero by blast

text \<open>
  C7 (as amended). With \<open>zero\<close> the default-constructed point and \<open>==\<close> comparing the
  coordinates: \<open>p + zero == p\<close> for every point \<open>p\<close> none of whose coordinates is NaN, and
  \<open>p - p == zero\<close> for every point \<open>p\<close> whose coordinates are finite.
\<close>

theorem additive_identity:
  "(number_coords p \<longrightarrow> Point_eq (operator_plus p Point_default) p)
   \<and> (finite_coords p \<longrightarrow> Point_eq (operator_minus p p) Point_default)"
  by (simp add: number_coords_def finite_coords_def Point_eq_def operator_plus_def
        operator_minus_def Point_default_def Point_coords_def feq_add_zero feq_sub_self)

text \<open>The point \<open>(1, 0, 0)\<close> satisfies both hypotheses.\<close>

theorem additive_identity_witness:
  "number_coords (Point_coords 1 0 0) \<and> finite_coords (Point_coords 1 0 0)
   \<and> Point_eq (operator_plus (Point_coords 1 0 0) Point_default) (Point_coords 1 0 0)
   \<and> Point_eq (operator_minus (Point_coords 1 0 0) (Point_coords 1 0 0)) Point_default"
proof -
  have fin: "finite_coords (Point_coords 1 0 0)"
    by (simp add: finite_coords_def Point_coords_def is_finite_one is_finite_zero)
  then have num: "number_coords (Point_coords 1 0 0)"
    by (simp add: finite_coords_def number_coords_def is_number_def)
  show ?thesis
    using additive_identity [of "Point_coords 1 0 0"] fin num by blast
qed

text \<open>
  For all points the claim fails: \<open>infinity - infinity\<close> is NaN, so \<open>p - p\<close> is not \<open>zero\<close>
  for \<open>p = (+infinity, 0, 0)\<close>; and NaN equals nothing, so \<open>p + zero == p\<close> is false for
  \<open>p = (NaN, 0, 0)\<close>.
\<close>

theorem additive_identity_counterexample:
  "operator_minus (Point_coords (Infinity False) 0 0) (Point_coords (Infinity False) 0 0)
     = Point_coords NaN 0 0
   \<and> \<not> Point_eq
         (operator_minus (Point_coords (Infinity False) 0 0) (Point_coords (Infinity False) 0 0))
         Point_default
   \<and> \<not> Point_eq (operator_plus (Point_coords NaN 0 0) Point_default) (Point_coords NaN 0 0)"
  by (simp add: operator_minus_def operator_plus_def Point_coords_def Point_default_def
        Point_eq_def minus_double_def plus_double_def fsub_def fsub_zero_zero [unfolded fsub_def])

section \<open>The in-place operators\<close>

text \<open>
  What the four in-place operators do, whatever aliases what. \<open>p += q\<close> and \<open>p -= q\<close> store
  the coordinates of \<open>operator+\<close> and \<open>operator-\<close> (lemmas \<open>plus_assign_points\<close>,
  \<open>minus_assign_points\<close>), also for \<open>p += p\<close>. \<open>p *= d\<close> and \<open>p /= d\<close> store those of
  \<open>operator*\<close> and \<open>operator/\<close> unless \<open>d\<close> refers to the receiver's own first or second
  coordinate (lemmas \<open>times_assign_points\<close>, \<open>divide_assign_points\<close>). All four return the
  receiver.

  C8. The scalar parameter is a \<open>const double&\<close>, read again for every coordinate. In
  \<open>p *= p.x()\<close> with \<open>p = (2, 3, 4)\<close> it refers to the first coordinate, which the first
  assignment overwrites with 4; the other two coordinates are then scaled by 4. The receiver
  ends as \<open>(4, 12, 16)\<close>, where \<open>old p[i] * d\<close> with \<open>d = 2\<close>, and \<open>p * p.x()\<close>, give
  \<open>(4, 6, 8)\<close>.
\<close>

theorem times_assign_aliased_scalar:
  "read_ref (memory_of (Point_coords (double_of_nat 2) (double_of_nat 3) (double_of_nat 4))
       identity4) (x_ref 0) = double_of_nat 2
   \<and> points (fst (operator_times_assign
        (memory_of (Point_coords (double_of_nat 2) (double_of_nat 3) (double_of_nat 4))
           identity4) 0 (x_ref 0))) 0
     = Point_coords (double_of_nat 4) (double_of_nat 12) (double_of_nat 16)
   \<and> snd (call_const_scalar operator_times
        (memory_of (Point_coords (double_of_nat 2) (double_of_nat 3) (double_of_nat 4))
           identity4) 0 (x_ref 0))
     = Point_coords (double_of_nat 4) (double_of_nat 6) (double_of_nat 8)
   \<and> Point_coords (double_of_nat 4) (double_of_nat 12) (double_of_nat 16)
     \<noteq> Point_coords (double_of_nat 4) (double_of_nat 6) (double_of_nat 8)"
proof (intro conjI)
  show "points (fst (operator_times_assign
        (memory_of (Point_coords (double_of_nat 2) (double_of_nat 3) (double_of_nat 4))
           identity4) 0 (x_ref 0))) 0
     = Point_coords (double_of_nat 4) (double_of_nat 12) (double_of_nat 16)"
    unfolding times_assign_alias_x
    by (simp add: Point_coords_def fmul_2_2 fmul_3_4 fmul_4_4)
  show "snd (call_const_scalar operator_times
        (memory_of (Point_coords (double_of_nat 2) (double_of_nat 3) (double_of_nat 4))
           identity4) 0 (x_ref 0))
     = Point_coords (double_of_nat 4) (double_of_nat 6) (double_of_nat 8)"
    by (simp add: call_const_scalar_def operator_times_def x_ref_def Point_coords_def
          fmul_2_2 fmul_3_2 fmul_4_2)
  show "Point_coords (double_of_nat 4) (double_of_nat 12) (double_of_nat 16)
     \<noteq> Point_coords (double_of_nat 4) (double_of_nat 6) (double_of_nat 8)"
    using double_of_nat_6_12 by (simp add: Point_coords_def)
qed (simp add: x_ref_def Point_coords_def)

section \<open>Indexed access and frame properties\<close>

text \<open>
  C9. Neither \<open>operator[]\<close> tests its index. For \<open>i\<close> in \<open>{0, 1, 2}\<close> the const operator
  returns the value of coordinate \<open>i\<close> and the non-const operator a reference to coordinate
  \<open>i\<close> of the receiver: reading through the reference gives that coordinate, and writing
  through it changes that coordinate and no other. For any other \<open>i\<close> the subscript of the
  underlying array is out of range, which is undefined behaviour (\<open>None\<close>), not an error
  value.
\<close>

theorem operator_index_unchecked:
  "operator_index_const p 0 = Some (x_const p)
   \<and> operator_index_const p 1 = Some (y_const p)
   \<and> operator_index_const p 2 = Some (z_const p)
   \<and> operator_index this 0 = Some (x_ref this)
   \<and> operator_index this 1 = Some (y_ref this)
   \<and> operator_index this 2 = Some (z_ref this)
   \<and> read_ref mem (Coord_ref this k) = get3 (xyz (points mem this)) k
   \<and> get3 (xyz (points (write_ref mem (Coord_ref this k) v) this)) j
       = (if j = k then v else get3 (xyz (points mem this)) j)
   \<and> (i < 0 \<or> 2 < i \<longrightarrow> operator_index_const p i = None \<and> operator_index this i = None)"
  by (auto simp add: operator_index_const_def operator_index_def subscript3_def
        index3_of_int_def x_const_def y_const_def z_const_def x_ref_def y_ref_def z_ref_def)

text \<open>Index 3 is out of range.\<close>

theorem operator_index_unchecked_witness:
  "2 < (3::int) \<and> operator_index_const Point_default 3 = None \<and> operator_index 0 3 = None"
proof -
  have h: "(3::int) < 0 \<or> 2 < (3::int)" by simp
  show ?thesis
    using operator_index_unchecked [of Point_default 0 "memory_of Point_default identity4" I0 0 I0 3]
      h
    by simp
qed

text \<open>
  C10. No operation modifies an operand it does not own. A call of \<open>p + q\<close>, \<open>p - q\<close>,
  \<open>p * d\<close>, \<open>p / d\<close>, \<open>p.dot(q)\<close>, \<open>p.cross(q)\<close>, \<open>p.norm1()\<close>, \<open>p.norm2()\<close> or
  \<open>p.normInf()\<close> leaves the whole memory as it was. After \<open>p += q\<close>, \<open>p -= q\<close> and
  \<open>p.transform(m)\<close> every \<open>Point\<close> object other than the receiver, so \<open>q\<close> when it is another
  object, every matrix, so \<open>m\<close>, and every double outside a \<open>Point\<close> is as it was.
\<close>

theorem operands_unchanged:
  "fst (call_const_point operator_plus mem p q) = mem
   \<and> fst (call_const_point operator_minus mem p q) = mem
   \<and> fst (call_const_scalar operator_times mem p d) = mem
   \<and> fst (call_const_scalar operator_divide mem p d) = mem
   \<and> fst (call_const_point dot mem p q) = mem
   \<and> fst (call_const_point cross mem p q) = mem
   \<and> fst (call_const norm1 mem p) = mem
   \<and> fst (call_const norm2 mem p) = mem
   \<and> fst (call_const normInf mem p) = mem
   \<and> (a \<noteq> p \<longrightarrow> points (fst (operator_plus_assign mem p q)) a = points mem a)
   \<and> scalars (fst (operator_plus_assign mem p q)) = scalars mem
   \<and> matrices (fst (operator_plus_assign mem p q)) = matrices mem
   \<and> (a \<noteq> p \<longrightarrow> points (fst (operator_minus_assign mem p q)) a = points mem a)
   \<and> scalars (fst (operator_minus_assign mem p q)) = scalars mem
   \<and> matrices (fst (operator_minus_assign mem p q)) = matrices mem
   \<and> (a \<noteq> p \<longrightarrow> points (fst (transform mem p m)) a = points mem a)
   \<and> scalars (fst (transform mem p m)) = scalars mem
   \<and> matrices (fst (transform mem p m)) = matrices mem"
  by (simp add: call_const_def call_const_point_def call_const_scalar_def
        plus_assign_points plus_assign_frame minus_assign_points minus_assign_frame
        transform_points transform_frame)

text \<open>Two different objects: \<open>p = (1, 0, 0)\<close> at address 0 and \<open>q = (0, 1, 0)\<close> at address 1.
  After \<open>p += q\<close>, \<open>p -= q\<close> and \<open>p.transform(m)\<close> the object at address 1 still holds
  \<open>(0, 1, 0)\<close>.\<close>

theorem operands_unchanged_witness:
  "(1::nat) \<noteq> 0
   \<and> points (fst (operator_plus_assign
        ((memory_of (Point_coords 1 0 0) identity4)
           \<lparr>points := (points (memory_of (Point_coords 1 0 0) identity4))
              (1 := Point_coords 0 1 0)\<rparr>) 0 1)) 1 = Point_coords 0 1 0
   \<and> points (fst (operator_minus_assign
        ((memory_of (Point_coords 1 0 0) identity4)
           \<lparr>points := (points (memory_of (Point_coords 1 0 0) identity4))
              (1 := Point_coords 0 1 0)\<rparr>) 0 1)) 1 = Point_coords 0 1 0
   \<and> points (fst (transform
        ((memory_of (Point_coords 1 0 0) identity4)
           \<lparr>points := (points (memory_of (Point_coords 1 0 0) identity4))
              (1 := Point_coords 0 1 0)\<rparr>) 0 0)) 1 = Point_coords 0 1 0"
proof -
  let ?mem = "(memory_of (Point_coords 1 0 0) identity4)
           \<lparr>points := (points (memory_of (Point_coords 1 0 0) identity4))
              (1 := Point_coords 0 1 0)\<rparr>"
  have ne: "(1::nat) \<noteq> 0" by simp
  have q: "points ?mem 1 = Point_coords 0 1 0" by simp
  show ?thesis
    using operands_unchanged [of ?mem 0 1 "Scalar_ref 0" 1 0] ne q by metis
qed

end
